theory Spec2Isabelle
  imports Complex_Main "HOL-Library.Monad_Syntax" "HOL-Library.Multiset"
begin

section \<open>Conventions of the embedding\<close>

text \<open>
  The adaptive remeshing kernel of \<^verbatim>\<open>lib/src/tool/sculpt/util/action.cpp\<close> is embedded
  function by function. Indices (\<^verbatim>\<open>unsigned int\<close>) are natural numbers; no index of
  the kernel comes near the 32-bit range, so wrap-around plays no role. A computation that
  runs into a failing \<^verbatim>\<open>assert\<close> or into \<^verbatim>\<open>DILAY_IMPOSSIBLE\<close> aborts: it
  returns \<open>None\<close>. \<^verbatim>\<open>float\<close> quantities are idealised as real numbers.
  A \<^verbatim>\<open>std::unordered_map\<close> that is only searched is a map. A
  \<^verbatim>\<open>std::unordered_set\<close> is the duplicate-free list of its insertions; the order in
  which the program iterates over such a set is not fixed by the sources at hand (it depends
  on the hash function and on the implementation of the container), so it is a parameter of
  every function that iterates over one: \<open>ord\<close> for the set of faces to delete of
  \<^verbatim>\<open>NewFaces\<close>, \<open>walk\<close> for the set of edges of \<^verbatim>\<open>relaxEdges\<close>. Such a parameter
  maps the list of the insertions to the list in the order of the iteration.
\<close>

definition assertion :: "bool \<Rightarrow> unit option" where
  "assertion b = (if b then Some () else None)"

section \<open>The indexed mesh store\<close>

type_synonym vec3 = "real \<times> real \<times> real"
type_synonym face = "nat \<times> nat \<times> nat"

text \<open>
  Modelled from the spec: the class \<^verbatim>\<open>DynamicMesh\<close> (\<^verbatim>\<open>dynamic/mesh.hpp\<close>) is not
  part of the sources at hand. Following sections 3 and 4.1 of the specification, the store is
  a vertex array and a face array with stable indices, each with a free-list of recyclable
  indices; a free slot holds \<open>None\<close>. Adjacency is recovered by scanning the face array.
  The free-lists are stacks: \<^verbatim>\<open>relaxEdges\<close> asserts that the two faces added after two
  deletions receive the indices just freed, the last one freed first.
\<close>

record mesh =
  vertexTable :: "(vec3 \<times> vec3) option list"
  freeVertexIndices :: "nat list"
  faceTable :: "face option list"
  freeFaceIndices :: "nat list"

definition isFreeVertex :: "mesh \<Rightarrow> nat \<Rightarrow> bool" where
  "isFreeVertex m i = (length (vertexTable m) \<le> i \<or> vertexTable m ! i = None)"

definition isFreeFace :: "mesh \<Rightarrow> nat \<Rightarrow> bool" where
  "isFreeFace m f = (length (faceTable m) \<le> f \<or> faceTable m ! f = None)"

text \<open>\<^verbatim>\<open>vertexIndices (f, i1, i2, i3)\<close>: the three corners of a face that is not free.\<close>

definition vertexIndices :: "mesh \<Rightarrow> nat \<Rightarrow> face option" where
  "vertexIndices m f = (if f < length (faceTable m) then faceTable m ! f else None)"

definition vertex :: "mesh \<Rightarrow> nat \<Rightarrow> vec3 option" where
  "vertex m i = (if i < length (vertexTable m) then map_option fst (vertexTable m ! i) else None)"

definition vertexNormal :: "mesh \<Rightarrow> nat \<Rightarrow> vec3 option" where
  "vertexNormal m i =
     (if i < length (vertexTable m) then map_option snd (vertexTable m ! i) else None)"

fun refersTo :: "nat \<Rightarrow> face option \<Rightarrow> bool" where
  "refersTo v None = False"
| "refersTo v (Some (a, b, c)) = (v = a \<or> v = b \<or> v = c)"

definition adjacentFaces :: "mesh \<Rightarrow> nat \<Rightarrow> nat list" where
  "adjacentFaces m v =
     filter (\<lambda>f. refersTo v (faceTable m ! f)) [0 ..< length (faceTable m)]"

definition valence :: "mesh \<Rightarrow> nat \<Rightarrow> nat" where
  "valence m v = length (adjacentFaces m v)"

definition isEmpty :: "mesh \<Rightarrow> bool" where
  "isEmpty m = list_all (\<lambda>x. x = None) (faceTable m)"

definition addVertex :: "mesh \<Rightarrow> vec3 \<Rightarrow> vec3 \<Rightarrow> nat \<times> mesh" where
  "addVertex m pos normal =
     (case freeVertexIndices m of
        [] \<Rightarrow> (length (vertexTable m),
               m\<lparr>vertexTable := vertexTable m @ [Some (pos, normal)]\<rparr>)
      | i # free \<Rightarrow> (i, m\<lparr>vertexTable := (vertexTable m)[i := Some (pos, normal)],
                            freeVertexIndices := free\<rparr>))"

definition addFace :: "mesh \<Rightarrow> nat \<Rightarrow> nat \<Rightarrow> nat \<Rightarrow> nat \<times> mesh" where
  "addFace m i1 i2 i3 =
     (case freeFaceIndices m of
        [] \<Rightarrow> (length (faceTable m), m\<lparr>faceTable := faceTable m @ [Some (i1, i2, i3)]\<rparr>)
      | f # free \<Rightarrow> (f, m\<lparr>faceTable := (faceTable m)[f := Some (i1, i2, i3)],
                            freeFaceIndices := free\<rparr>))"

definition deleteFace :: "mesh \<Rightarrow> nat \<Rightarrow> mesh option" where
  "deleteFace m f =
     (if isFreeFace m f then None
      else Some (m\<lparr>faceTable := (faceTable m)[f := None],
                    freeFaceIndices := f # freeFaceIndices m\<rparr>))"

definition deleteVertex :: "mesh \<Rightarrow> nat \<Rightarrow> mesh option" where
  "deleteVertex m i =
     (if isFreeVertex m i then None
      else Some (m\<lparr>vertexTable := (vertexTable m)[i := None],
                    freeVertexIndices := i # freeVertexIndices m\<rparr>))"

text \<open>The setter \<^verbatim>\<open>vertex (i, pos)\<close> moves a vertex that is not free.\<close>

definition setVertex :: "mesh \<Rightarrow> nat \<Rightarrow> vec3 \<Rightarrow> mesh option" where
  "setVertex m i pos =
     (if isFreeVertex m i then None
      else Some (m\<lparr>vertexTable :=
                     (vertexTable m)[i := map_option (\<lambda>(p, n). (pos, n)) (vertexTable m ! i)]\<rparr>))"

section \<open>The face-set with staging\<close>

text \<open>
  Modelled from the spec: the class \<^verbatim>\<open>DynamicFaces\<close> (\<^verbatim>\<open>dynamic/faces.hpp\<close>) is not
  part of the sources at hand. Following sections 3 and 4.2 of the specification, a face-set
  has a committed view and an uncommitted staging buffer: \<^verbatim>\<open>insert\<close> adds to the staging
  buffer, \<^verbatim>\<open>commit\<close> merges the staging buffer into the committed view and empties it,
  \<^verbatim>\<open>filter\<close> removes from the committed view, and iteration, \<^verbatim>\<open>contains\<close> and
  \<^verbatim>\<open>indices\<close> see the committed view only.
\<close>

record dynamicFaces =
  indices :: "nat list"
  uncommitted :: "nat list"

definition emptyFaces :: dynamicFaces where
  "emptyFaces = \<lparr>indices = [], uncommitted = []\<rparr>"

definition insertFace :: "dynamicFaces \<Rightarrow> nat \<Rightarrow> dynamicFaces" where
  "insertFace fs i = fs\<lparr>uncommitted := uncommitted fs @ [i]\<rparr>"

definition insertFaces :: "dynamicFaces \<Rightarrow> nat list \<Rightarrow> dynamicFaces" where
  "insertFaces fs is = fold (\<lambda>i acc. insertFace acc i) is fs"

definition commit :: "dynamicFaces \<Rightarrow> dynamicFaces" where
  "commit fs = \<lparr>indices = remdups (indices fs @ uncommitted fs), uncommitted = []\<rparr>"

definition hasUncomitted :: "dynamicFaces \<Rightarrow> bool" where
  "hasUncomitted fs = (uncommitted fs \<noteq> [])"

definition containsFace :: "dynamicFaces \<Rightarrow> nat \<Rightarrow> bool" where
  "containsFace fs i = (i \<in> set (indices fs))"

section \<open>Edge keys and the temporary batches\<close>

text \<open>\<^verbatim>\<open>makeUiKey\<close>: the canonical key of an edge; it asserts that the ends differ.\<close>

definition makeUiKey :: "nat \<Rightarrow> nat \<Rightarrow> (nat \<times> nat) option" where
  "makeUiKey i1 i2 = do { assertion (i1 \<noteq> i2); Some (min i1 i2, max i1 i2) }"

text \<open>\<^verbatim>\<open>NewVertices\<close>: the map from edge keys to the midpoint vertices of a split pass.\<close>

type_synonym newVertices = "nat \<times> nat \<rightharpoonup> nat"

definition findVertex :: "newVertices \<Rightarrow> nat \<Rightarrow> nat \<Rightarrow> nat option option" where
  "findVertex newV i1 i2 = do { k \<leftarrow> makeUiKey i1 i2; Some (newV k) }"

definition hasVertex :: "newVertices \<Rightarrow> nat \<Rightarrow> nat \<Rightarrow> bool option" where
  "hasVertex newV i1 i2 = do { it \<leftarrow> findVertex newV i1 i2; Some (it \<noteq> None) }"

definition insertInEdge :: "newVertices \<Rightarrow> nat \<Rightarrow> nat \<Rightarrow> nat \<Rightarrow> newVertices option" where
  "insertInEdge newV i1 i2 i3 = do {
     h \<leftarrow> hasVertex newV i1 i2;
     assertion (h = False);
     k \<leftarrow> makeUiKey i1 i2;
     Some (newV(k \<mapsto> i3))
   }"

text \<open>
  \<^verbatim>\<open>NewFaces\<close>: the faces to add, in order, and the set of faces to delete. The source
  keeps the corners of the faces to add in one flat vector that only \<^verbatim>\<open>addFace\<close>
  extends, three at a time; the model keeps the triples.
\<close>

record newFaces =
  nfVertexIndices :: "face list"
  facesToDelete :: "nat list"

definition emptyNewFaces :: newFaces where
  "emptyNewFaces = \<lparr>nfVertexIndices = [], facesToDelete = []\<rparr>"

definition nfAddFace :: "newFaces \<Rightarrow> nat \<Rightarrow> nat \<Rightarrow> nat \<Rightarrow> newFaces" where
  "nfAddFace nf i1 i2 i3 = nf\<lparr>nfVertexIndices := nfVertexIndices nf @ [(i1, i2, i3)]\<rparr>"

definition nfDeleteFace :: "newFaces \<Rightarrow> nat \<Rightarrow> newFaces" where
  "nfDeleteFace nf i =
     (if i \<in> set (facesToDelete nf) then nf
      else nf\<lparr>facesToDelete := facesToDelete nf @ [i]\<rparr>)"

section \<open>Triangulation after a split\<close>

text \<open>
  The body of the loop of \<^verbatim>\<open>triangulate\<close> for one face \<open>f\<close>: the valences are read
  from the mesh, which the loop does not change (the batch is applied after the loop).
\<close>

definition triangulateFace :: "mesh \<Rightarrow> newVertices \<Rightarrow> newFaces \<Rightarrow> nat \<Rightarrow> newFaces option" where
  "triangulateFace m newV newF f = do {
     (i1, i2, i3) \<leftarrow> vertexIndices m f;
     it12 \<leftarrow> findVertex newV i1 i2;
     it13 \<leftarrow> findVertex newV i1 i3;
     it23 \<leftarrow> findVertex newV i2 i3;
     let v1 = valence m i1;
     let v2 = valence m i2;
     let v3 = valence m i3;
     (case (it12, it13, it23) of
        (None, None, None) \<Rightarrow> Some newF
      | (Some m12, None, None) \<Rightarrow>
          Some (nfAddFace (nfAddFace (nfDeleteFace newF f) i1 m12 i3) i3 m12 i2)
      | (None, Some m13, None) \<Rightarrow>
          Some (nfAddFace (nfAddFace (nfDeleteFace newF f) i3 m13 i2) i2 m13 i1)
      | (None, None, Some m23) \<Rightarrow>
          Some (nfAddFace (nfAddFace (nfDeleteFace newF f) i2 m23 i1) i1 m23 i3)
      | (Some m12, Some m13, None) \<Rightarrow>
          (let nf = nfAddFace (nfDeleteFace newF f) m12 m13 i1 in
           if v2 < v3 then Some (nfAddFace (nfAddFace nf i2 i3 m13) i2 m13 m12)
           else Some (nfAddFace (nfAddFace nf i3 m12 i2) i3 m13 m12))
      | (Some m12, None, Some m23) \<Rightarrow>
          (let nf = nfAddFace (nfDeleteFace newF f) m23 m12 i2 in
           if v1 < v3 then Some (nfAddFace (nfAddFace nf i1 m23 i3) i1 m12 m23)
           else Some (nfAddFace (nfAddFace nf i3 i1 m12) i3 m12 m23))
      | (None, Some m13, Some m23) \<Rightarrow>
          (let nf = nfAddFace (nfDeleteFace newF f) m13 m23 i3 in
           if v1 < v2 then Some (nfAddFace (nfAddFace nf i1 i2 m23) i1 m23 m13)
           else Some (nfAddFace (nfAddFace nf i2 m13 i1) i2 m23 m13))
      | (Some m12, Some m13, Some m23) \<Rightarrow>
          Some (nfAddFace (nfAddFace (nfAddFace (nfAddFace (nfDeleteFace newF f)
                  m12 m23 m13) i1 m12 m13) i2 m23 m12) i3 m13 m23))
   }"

text \<open>
  The fan table of section 4.3 of the specification, from its words: \<open>fanRow\<close> holds of the
  lists of faces that the table allows as the replacement of \<open>(i1, i2, i3)\<close> for the
  midpoints present. The rows for no, one and three midpoints and the row for \<open>m12, m13\<close>
  give the faces one by one. The rows for \<open>m12, m23\<close> and for \<open>m13, m23\<close> give the face at
  the apex and say that the remaining quad is split on the endpoint of lower valence, in the
  same pattern as the row for \<open>m12, m13\<close>: \<open>samePattern\<close> is that row for the apex \<open>a\<close>
  followed in the face by \<open>b\<close> and then \<open>c\<close>, with the midpoints \<open>mb\<close> on \<open>(a, b)\<close> and \<open>mc\<close>
  on \<open>(a, c)\<close>; it allows the split from \<open>b\<close> unless \<open>c\<close> has the lower valence and the split
  from \<open>c\<close> unless \<open>b\<close> has the lower valence, so that it leaves a tie open.
\<close>

definition samePattern :: "(nat \<Rightarrow> nat) \<Rightarrow> nat \<Rightarrow> nat \<Rightarrow> nat \<Rightarrow> nat \<Rightarrow> nat \<Rightarrow> face list \<Rightarrow> bool" where
  "samePattern val a b c mb mc ts =
     (ts = [(mb, mc, a), (b, c, mc), (b, mc, mb)] \<and> val b \<le> val c \<or>
      ts = [(mb, mc, a), (c, mb, b), (c, mc, mb)] \<and> val c \<le> val b)"

fun fanRow ::
  "(nat \<Rightarrow> nat) \<Rightarrow> face \<Rightarrow> nat option \<Rightarrow> nat option \<Rightarrow> nat option \<Rightarrow> face list \<Rightarrow> bool" where
  "fanRow val (i1, i2, i3) None None None ts = (ts = [])"
| "fanRow val (i1, i2, i3) (Some m12) None None ts = (ts = [(i1, m12, i3), (i3, m12, i2)])"
| "fanRow val (i1, i2, i3) None (Some m13) None ts = (ts = [(i3, m13, i2), (i2, m13, i1)])"
| "fanRow val (i1, i2, i3) None None (Some m23) ts = (ts = [(i2, m23, i1), (i1, m23, i3)])"
| "fanRow val (i1, i2, i3) (Some m12) (Some m13) None ts =
     (ts = (m12, m13, i1) #
        (if val i2 < val i3 then [(i2, i3, m13), (i2, m13, m12)]
         else [(i3, m12, i2), (i3, m13, m12)]))"
| "fanRow val (i1, i2, i3) (Some m12) None (Some m23) ts = samePattern val i2 i3 i1 m23 m12 ts"
| "fanRow val (i1, i2, i3) None (Some m13) (Some m23) ts = samePattern val i3 i1 i2 m13 m23 ts"
| "fanRow val (i1, i2, i3) (Some m12) (Some m13) (Some m23) ts =
     (ts = [(m12, m23, m13), (i1, m12, m13), (i2, m23, m12), (i3, m13, m23)])"

text \<open>
  \<^verbatim>\<open>NewFaces::applyToMesh\<close>: the faces to delete are deleted first; unless the mesh
  is empty then, the faces are added in order, and a face added at a position beyond the number
  of deleted faces is inserted into the face-set. The set of faces to delete is visited in
  the order \<open>ord\<close> of the iteration over the \<^verbatim>\<open>std::unordered_set\<close>.
\<close>

fun deleteFacesLoop :: "nat list \<Rightarrow> mesh \<Rightarrow> mesh option" where
  "deleteFacesLoop [] m = Some m"
| "deleteFacesLoop (i # is) m = do { m' \<leftarrow> deleteFace m i; deleteFacesLoop is m' }"

fun addFacesLoop :: "nat \<Rightarrow> nat \<Rightarrow> face list \<Rightarrow> mesh \<Rightarrow> dynamicFaces \<Rightarrow> mesh \<times> dynamicFaces" where
  "addFacesLoop nDel k [] m fs = (m, fs)"
| "addFacesLoop nDel k ((i1, i2, i3) # ts) m fs =
     (let (f, m') = addFace m i1 i2 i3;
          fs' = (if nDel \<le> k then insertFace fs f else fs)
      in addFacesLoop nDel (Suc k) ts m' fs')"

definition applyToMesh :: "(nat list \<Rightarrow> nat list) \<Rightarrow> newFaces \<Rightarrow> mesh \<Rightarrow> dynamicFaces \<Rightarrow> (bool \<times> mesh \<times> dynamicFaces) option" where
  "applyToMesh ord nf m fs = do {
     m1 \<leftarrow> deleteFacesLoop (ord (facesToDelete nf)) m;
     if \<not> isEmpty m1 then
       (let (m2, fs2) = addFacesLoop (length (facesToDelete nf)) 0 (nfVertexIndices nf) m1 fs
        in Some (length (facesToDelete nf) \<le> length (nfVertexIndices nf), m2, fs2))
     else Some (False, m1, fs)
   }"

text \<open>
  Modelled from the spec: \<^verbatim>\<open>DynamicMesh::forEachFaceExt\<close> is not part of the sources at
  hand. By section 4.1 of the specification it visits each face of the committed set and any
  face its callback adds during the iteration; the callback of \<^verbatim>\<open>triangulate\<close> adds none,
  since the batch is applied after the loop.
\<close>

fun triangulateLoop :: "mesh \<Rightarrow> newVertices \<Rightarrow> nat list \<Rightarrow> newFaces \<Rightarrow> newFaces option" where
  "triangulateLoop m newV [] newF = Some newF"
| "triangulateLoop m newV (f # fs) newF =
     do { newF' \<leftarrow> triangulateFace m newV newF f; triangulateLoop m newV fs newF' }"

definition triangulate :: "(nat list \<Rightarrow> nat list) \<Rightarrow> mesh \<Rightarrow> newVertices \<Rightarrow> dynamicFaces \<Rightarrow> (mesh \<times> dynamicFaces) option" where
  "triangulate ord m newV faces = do {
     assertion (hasUncomitted faces = False);
     newF \<leftarrow> triangulateLoop m newV (indices faces) emptyNewFaces;
     (increasing, m', faces') \<leftarrow> applyToMesh ord newF m faces;
     assertion increasing;
     Some (m', commit faces')
   }"

section \<open>Edge flips\<close>

text \<open>
  \<^verbatim>\<open>findAdjacent\<close>: the faces of \<open>e1\<close> are scanned for the directed edges
  \<open>(e1, e2)\<close> (left) and \<open>(e2, e1)\<close> (right); a later match overwrites an earlier one. The
  source sets a face and its opposite vertex together, starting from the invalid index; the
  model keeps each pair in an option. All four results are asserted to be valid.
\<close>

definition findAdjacentStep ::
  "nat \<Rightarrow> nat \<Rightarrow> nat \<Rightarrow> face \<Rightarrow> (nat \<times> nat) option \<times> (nat \<times> nat) option
     \<Rightarrow> (nat \<times> nat) option \<times> (nat \<times> nat) option" where
  "findAdjacentStep e1 e2 a t st =
     (case t of (i1, i2, i3) \<Rightarrow>
        if e1 = i1 \<and> e2 = i2 then (Some (a, i3), snd st)
        else if e1 = i2 \<and> e2 = i1 then (fst st, Some (a, i3))
        else if e1 = i2 \<and> e2 = i3 then (Some (a, i1), snd st)
        else if e1 = i3 \<and> e2 = i2 then (fst st, Some (a, i1))
        else if e1 = i3 \<and> e2 = i1 then (Some (a, i2), snd st)
        else if e1 = i1 \<and> e2 = i3 then (fst st, Some (a, i2))
        else st)"

fun findAdjacentLoop ::
  "mesh \<Rightarrow> nat \<Rightarrow> nat \<Rightarrow> nat list \<Rightarrow> (nat \<times> nat) option \<times> (nat \<times> nat) option
     \<Rightarrow> ((nat \<times> nat) option \<times> (nat \<times> nat) option) option" where
  "findAdjacentLoop m e1 e2 [] st = Some st"
| "findAdjacentLoop m e1 e2 (a # as) st =
     do { t \<leftarrow> vertexIndices m a; findAdjacentLoop m e1 e2 as (findAdjacentStep e1 e2 a t st) }"

text \<open>The result is \<open>(leftFace, leftVertex, rightFace, rightVertex)\<close>.\<close>

definition findAdjacent :: "mesh \<Rightarrow> nat \<Rightarrow> nat \<Rightarrow> (nat \<times> nat \<times> nat \<times> nat) option" where
  "findAdjacent m e1 e2 = do {
     st \<leftarrow> findAdjacentLoop m e1 e2 (adjacentFaces m e1) (None, None);
     (leftFace, leftVertex) \<leftarrow> fst st;
     (rightFace, rightVertex) \<leftarrow> snd st;
     Some (leftFace, leftVertex, rightFace, rightVertex)
   }"

text \<open>
  Modelled from the spec: \<^verbatim>\<open>DynamicMesh::forEachVertex\<close> and
  \<^verbatim>\<open>DynamicMesh::forEachFace\<close> are not part of the sources at hand. By section 4.1 of
  the specification the first visits each unique vertex incident to at least one face of the
  committed set (a free face has no vertex); the model visits them in the order of their first
  occurrence. The second visits the faces of the mesh; the model visits them by index.
\<close>

fun facesVertices :: "mesh \<Rightarrow> nat list \<Rightarrow> nat list" where
  "facesVertices m [] = []"
| "facesVertices m (f # fs) =
     (case vertexIndices m f of
        None \<Rightarrow> facesVertices m fs
      | Some (i1, i2, i3) \<Rightarrow> i1 # i2 # i3 # facesVertices m fs)"

definition forEachVertex :: "mesh \<Rightarrow> dynamicFaces \<Rightarrow> nat list" where
  "forEachVertex m faces = remdups (facesVertices m (indices faces))"

definition forEachFace :: "mesh \<Rightarrow> nat list" where
  "forEachFace m = filter (\<lambda>f. isFreeFace m f = False) [0 ..< length (faceTable m)]"

text \<open>
  \<^verbatim>\<open>EdgeSet\<close>: a set of canonical edge keys, kept as the list of its insertions. The loop
  of \<^verbatim>\<open>relaxEdges\<close> visits it in the order \<open>walk\<close> of the iteration over the
  \<^verbatim>\<open>std::unordered_set\<close>.
\<close>

definition insertEdge :: "(nat \<times> nat) list \<Rightarrow> nat \<Rightarrow> nat \<Rightarrow> (nat \<times> nat) list option" where
  "insertEdge es i1 i2 =
     do { k \<leftarrow> makeUiKey i1 i2; Some (if k \<in> set es then es else es @ [k]) }"

text \<open>\<^verbatim>\<open>isRelaxable\<close>, with the valences converted to signed integers as in the source.\<close>

definition isRelaxable :: "mesh \<Rightarrow> nat \<times> nat \<Rightarrow> nat \<Rightarrow> nat \<Rightarrow> bool" where
  "isRelaxable m edge leftVertex rightVertex =
     (let vE1 = int (valence m (fst edge));
          vE2 = int (valence m (snd edge));
          vL = int (valence m leftVertex);
          vR = int (valence m rightVertex);
          pre = \<bar>vE1 - 6\<bar> + \<bar>vE2 - 6\<bar> + \<bar>vL - 6\<bar> + \<bar>vR - 6\<bar>;
          post = \<bar>vE1 - 6 - 1\<bar> + \<bar>vE2 - 6 - 1\<bar> + \<bar>vL - 6 + 1\<bar> + \<bar>vR - 6 + 1\<bar>
      in vE1 > 3 \<and> vE2 > 3 \<and> post < pre)"

text \<open>The edges that \<^verbatim>\<open>relaxEdges\<close> collects around one vertex \<open>i\<close> of valence above 6.\<close>

fun collectEdges :: "mesh \<Rightarrow> nat \<Rightarrow> nat list \<Rightarrow> (nat \<times> nat) list \<Rightarrow> (nat \<times> nat) list option" where
  "collectEdges m i [] es = Some es"
| "collectEdges m i (a # as) es = do {
     (i1, i2, i3) \<leftarrow> vertexIndices m a;
     es1 \<leftarrow> (if i \<noteq> i1 then insertEdge es i i1 else Some es);
     es2 \<leftarrow> (if i \<noteq> i2 then insertEdge es1 i i2 else Some es1);
     es3 \<leftarrow> (if i \<noteq> i3 then insertEdge es2 i i3 else Some es2);
     collectEdges m i as es3
   }"

fun collectPoleEdges :: "mesh \<Rightarrow> nat list \<Rightarrow> (nat \<times> nat) list \<Rightarrow> (nat \<times> nat) list option" where
  "collectPoleEdges m [] es = Some es"
| "collectPoleEdges m (i # is) es = do {
     es' \<leftarrow> (if valence m i > 6 then collectEdges m i (adjacentFaces m i) es else Some es);
     collectPoleEdges m is es'
   }"

text \<open>The body of the loop of \<^verbatim>\<open>relaxEdges\<close> over the collected edges.\<close>

definition relaxEdge :: "mesh \<Rightarrow> nat \<times> nat \<Rightarrow> mesh option" where
  "relaxEdge m edge = do {
     (leftFace, leftVertex, rightFace, rightVertex) \<leftarrow> findAdjacent m (fst edge) (snd edge);
     if isRelaxable m edge leftVertex rightVertex then do {
       m1 \<leftarrow> deleteFace m leftFace;
       m2 \<leftarrow> deleteFace m1 rightFace;
       let (newLeftFace, m3) = addFace m2 leftVertex (fst edge) rightVertex;
       let (newRightFace, m4) = addFace m3 rightVertex (snd edge) leftVertex;
       assertion (newLeftFace = rightFace);
       assertion (newRightFace = leftFace);
       Some m4
     } else Some m
   }"

fun relaxLoop :: "(nat \<times> nat) list \<Rightarrow> mesh \<Rightarrow> mesh option" where
  "relaxLoop [] m = Some m"
| "relaxLoop (edge # es) m = do { m' \<leftarrow> relaxEdge m edge; relaxLoop es m' }"

definition relaxEdgeSet :: "mesh \<Rightarrow> dynamicFaces \<Rightarrow> (nat \<times> nat) list option" where
  "relaxEdgeSet m faces = collectPoleEdges m (forEachVertex m faces) []"

definition relaxEdges :: "((nat \<times> nat) list \<Rightarrow> (nat \<times> nat) list) \<Rightarrow> mesh \<Rightarrow> dynamicFaces \<Rightarrow> mesh option" where
  "relaxEdges walk m faces = do {
     assertion (hasUncomitted faces = False);
     es \<leftarrow> relaxEdgeSet m faces;
     relaxLoop (walk es) m
   }"

section \<open>Vectors\<close>

text \<open>
  The operations of the vector library (glm) on idealised reals. A division by zero, whose
  floating-point result is not a finite number, yields no vector.
\<close>

fun vadd :: "vec3 \<Rightarrow> vec3 \<Rightarrow> vec3" where
  "vadd (x1, y1, z1) (x2, y2, z2) = (x1 + x2, y1 + y2, z1 + z2)"

fun smul :: "real \<Rightarrow> vec3 \<Rightarrow> vec3" where
  "smul s (x, y, z) = (s * x, s * y, s * z)"

fun dot :: "vec3 \<Rightarrow> vec3 \<Rightarrow> real" where
  "dot (x1, y1, z1) (x2, y2, z2) = x1 * x2 + y1 * y2 + z1 * z2"

fun cross :: "vec3 \<Rightarrow> vec3 \<Rightarrow> vec3" where
  "cross (x1, y1, z1) (x2, y2, z2) = (y1 * z2 - z1 * y2, z1 * x2 - x1 * z2, x1 * y2 - y1 * x2)"

definition distance2 :: "vec3 \<Rightarrow> vec3 \<Rightarrow> real" where
  "distance2 p q = dot (vadd p (smul (- 1) q)) (vadd p (smul (- 1) q))"

definition vdiv :: "vec3 \<Rightarrow> real \<Rightarrow> vec3 option" where
  "vdiv v s = (if s = 0 then None else Some (smul (1 / s) v))"

definition normalize :: "vec3 \<Rightarrow> vec3 option" where
  "normalize v = vdiv v (sqrt (dot v v))"

text \<open>
  Modelled from the spec: \<^verbatim>\<open>Util::colinearUnit\<close> and \<^verbatim>\<open>Util::between\<close>
  (\<^verbatim>\<open>util.hpp\<close>) are not part of the sources at hand. By section 4.3 of the specification
  two unit normals are numerically colinear when their dot product is \<open>1\<close> or \<open>-1\<close> within an
  epsilon, and a collapsed edge is replaced by its midpoint. The functions of the kernel take
  the colinearity test as a parameter.
\<close>

definition colinearUnit :: "real \<Rightarrow> vec3 \<Rightarrow> vec3 \<Rightarrow> bool" where
  "colinearUnit eps n1 n2 = (\<bar>1 - \<bar>dot n1 n2\<bar>\<bar> < eps)"

definition between :: "vec3 \<Rightarrow> vec3 \<Rightarrow> vec3" where
  "between p q = smul (1 / 2) (vadd p q)"

section \<open>Edge splits\<close>

definition getSplitPosition :: "(vec3 \<Rightarrow> vec3 \<Rightarrow> bool) \<Rightarrow> mesh \<Rightarrow> nat \<Rightarrow> nat \<Rightarrow> vec3 option" where
  "getSplitPosition colinear m i1 i2 = do {
     p1 \<leftarrow> vertex m i1;
     n1 \<leftarrow> vertexNormal m i1;
     p2 \<leftarrow> vertex m i2;
     n2 \<leftarrow> vertexNormal m i2;
     if colinear n1 n2 then Some (smul (1 / 2) (vadd p1 p2))
     else do {
       n3 \<leftarrow> normalize (cross n1 n2);
       let d1 = dot p1 n1;
       let d2 = dot p2 n2;
       let d3 = dot p1 n3;
       p3 \<leftarrow> vdiv (vadd (vadd (smul d1 (cross n2 n3)) (smul d2 (cross n3 n1)))
                        (smul d3 (cross n1 n2)))
                  (dot n1 (cross n2 n3));
       Some (vadd (vadd (smul (1 / 4) p1) (smul (1 / 2) p3)) (smul (1 / 4) p2))
     }
   }"

text \<open>
  The closure \<^verbatim>\<open>split\<close> of \<^verbatim>\<open>splitEdges\<close>: it returns whether the edge was split, with
  the mesh and the map of new vertices it leaves.
\<close>

definition split ::
  "(vec3 \<Rightarrow> vec3 \<Rightarrow> bool) \<Rightarrow> real \<Rightarrow> mesh \<Rightarrow> newVertices \<Rightarrow> nat \<Rightarrow> nat
     \<Rightarrow> (bool \<times> mesh \<times> newVertices) option" where
  "split colinear maxLength m newV i1 i2 = do {
     p1 \<leftarrow> vertex m i1;
     p2 \<leftarrow> vertex m i2;
     if distance2 p1 p2 > maxLength * maxLength then do {
       n1 \<leftarrow> vertexNormal m i1;
       n2 \<leftarrow> vertexNormal m i2;
       normal \<leftarrow> normalize (vadd n1 n2);
       pos \<leftarrow> getSplitPosition colinear m i1 i2;
       let (i3, m') = addVertex m pos normal;
       newV' \<leftarrow> insertInEdge newV i1 i2 i3;
       Some (True, m', newV')
     } else Some (False, m, newV)
   }"

text \<open>
  One edge of a face in the predicate of the filter of \<^verbatim>\<open>splitEdges\<close>:
  \<^verbatim>\<open>if (newV.hasVertex (i1, i2) == false) wasSplit = split (i1, i2) || wasSplit;\<close>
\<close>

definition splitIfNew ::
  "(vec3 \<Rightarrow> vec3 \<Rightarrow> bool) \<Rightarrow> real \<Rightarrow> nat \<Rightarrow> nat \<Rightarrow> bool \<times> mesh \<times> newVertices
     \<Rightarrow> (bool \<times> mesh \<times> newVertices) option" where
  "splitIfNew colinear maxLength i1 i2 st =
     (case st of (wasSplit, m, newV) \<Rightarrow> do {
        h \<leftarrow> hasVertex newV i1 i2;
        if h = False then do {
          (r, m', newV') \<leftarrow> split colinear maxLength m newV i1 i2;
          Some (r \<or> wasSplit, m', newV')
        } else Some (wasSplit, m, newV)
      })"

text \<open>The predicate of the filter for one face: its result is \<^verbatim>\<open>wasSplit\<close>.\<close>

definition splitFace ::
  "(vec3 \<Rightarrow> vec3 \<Rightarrow> bool) \<Rightarrow> real \<Rightarrow> mesh \<Rightarrow> newVertices \<Rightarrow> nat
     \<Rightarrow> (bool \<times> mesh \<times> newVertices) option" where
  "splitFace colinear maxLength m newV f = do {
     (i1, i2, i3) \<leftarrow> vertexIndices m f;
     st1 \<leftarrow> splitIfNew colinear maxLength i1 i2 (False, m, newV);
     st2 \<leftarrow> splitIfNew colinear maxLength i1 i3 st1;
     splitIfNew colinear maxLength i2 i3 st2
   }"

text \<open>
  \<^verbatim>\<open>faces.filter\<close> visits the committed faces in order and keeps those for which the
  predicate returns true; the predicate changes the mesh and the map as it goes.
\<close>

fun splitLoop ::
  "(vec3 \<Rightarrow> vec3 \<Rightarrow> bool) \<Rightarrow> real \<Rightarrow> nat list \<Rightarrow> mesh \<Rightarrow> newVertices \<Rightarrow> nat list
     \<Rightarrow> (mesh \<times> newVertices \<times> nat list) option" where
  "splitLoop colinear maxLength [] m newV kept = Some (m, newV, kept)"
| "splitLoop colinear maxLength (f # fs) m newV kept = do {
     (wasSplit, m', newV') \<leftarrow> splitFace colinear maxLength m newV f;
     splitLoop colinear maxLength fs m' newV' (if wasSplit then kept @ [f] else kept)
   }"

definition splitEdges ::
  "(vec3 \<Rightarrow> vec3 \<Rightarrow> bool) \<Rightarrow> mesh \<Rightarrow> newVertices \<Rightarrow> real \<Rightarrow> dynamicFaces
     \<Rightarrow> (mesh \<times> newVertices \<times> dynamicFaces) option" where
  "splitEdges colinear m newV maxLength faces = do {
     assertion (hasUncomitted faces = False);
     (m', newV', kept) \<leftarrow> splitLoop colinear maxLength (indices faces) m newV [];
     Some (m', newV', faces\<lparr>indices := kept\<rparr>)
   }"

section \<open>Edge collapse\<close>

text \<open>
  \<^verbatim>\<open>deleteValence3Vertex\<close> receives the face-set by reference; the result carries whether
  the vertex was deleted, the mesh and the face-set.
\<close>

definition deleteValence3Vertex ::
  "mesh \<Rightarrow> nat \<Rightarrow> dynamicFaces \<Rightarrow> (bool \<times> mesh \<times> dynamicFaces) option" where
  "deleteValence3Vertex m i faces = do {
     assertion (isFreeVertex m i = False);
     assertion (valence m i = 3);
     let adj1 = adjacentFaces m i ! 0;
     let adj2 = adjacentFaces m i ! 1;
     let adj3 = adjacentFaces m i ! 2;
     (adj11, adj12, adj13) \<leftarrow> vertexIndices m adj1;
     (adj21, adj22, adj23) \<leftarrow> vertexIndices m adj2;
     (newI1, newI2) \<leftarrow>
       (if i = adj11 then Some (adj12, adj13)
        else if i = adj12 then Some (adj13, adj11)
        else if i = adj13 then Some (adj11, adj12)
        else None);
     newI3 \<leftarrow>
       (if adj21 \<noteq> newI1 \<and> adj21 \<noteq> newI2 then Some adj21
        else if adj22 \<noteq> newI1 \<and> adj22 \<noteq> newI2 then Some adj22
        else if adj23 \<noteq> newI1 \<and> adj23 \<noteq> newI2 then Some adj23
        else None);
     assertion (newI1 \<noteq> newI2);
     assertion (newI1 \<noteq> newI3);
     assertion (newI2 \<noteq> newI3);
     if valence m newI1 > 3 \<and> valence m newI2 > 3 \<and> valence m newI3 > 3 then do {
       m1 \<leftarrow> deleteFace m adj1;
       m2 \<leftarrow> deleteFace m1 adj2;
       m3 \<leftarrow> deleteFace m2 adj3;
       m4 \<leftarrow> deleteVertex m3 i;
       let (f, m5) = addFace m4 newI1 newI2 newI3;
       Some (True, m5, insertFace faces f)
     } else Some (False, m, faces)
   }"

text \<open>The closure \<^verbatim>\<open>isValidEdge\<close> of \<^verbatim>\<open>collapseEdge\<close>, with its own asserts.\<close>

definition isValidEdge :: "mesh \<Rightarrow> nat \<Rightarrow> nat \<Rightarrow> bool option" where
  "isValidEdge m i1 i2 = do {
     assertion (i1 \<noteq> i2);
     assertion (isFreeVertex m i1 = False);
     assertion (isFreeVertex m i2 = False);
     Some (list_ex (\<lambda>a. refersTo i2 (faceTable m ! a)) (adjacentFaces m i1))
   }"

text \<open>
  The closure \<^verbatim>\<open>addFaces\<close> of \<^verbatim>\<open>collapseEdge\<close>: each face of \<open>i1\<close> that does not hold
  \<open>i2\<close> is emitted again with \<open>newI\<close> in the place of \<open>i1\<close>, and every face of \<open>i1\<close> is
  marked for deletion.
\<close>

fun addFaces :: "mesh \<Rightarrow> nat \<Rightarrow> nat \<Rightarrow> nat \<Rightarrow> nat list \<Rightarrow> newFaces \<Rightarrow> newFaces option" where
  "addFaces m newI i1 i2 [] nf = Some nf"
| "addFaces m newI i1 i2 (a # as) nf = do {
     (a1, a2, a3) \<leftarrow> vertexIndices m a;
     let a1IsAdjacent = (a1 \<noteq> i1 \<and> a1 \<noteq> i2);
     let a2IsAdjacent = (a2 \<noteq> i1 \<and> a2 \<noteq> i2);
     let a3IsAdjacent = (a3 \<noteq> i1 \<and> a3 \<noteq> i2);
     assertion (a1IsAdjacent \<or> a2IsAdjacent \<or> a3IsAdjacent);
     assertion (a1IsAdjacent = False \<or> a2IsAdjacent = False \<or> a3IsAdjacent = False);
     let nf1 = (if a1IsAdjacent \<and> a2IsAdjacent then nfAddFace nf newI a1 a2
                else if a2IsAdjacent \<and> a3IsAdjacent then nfAddFace nf newI a2 a3
                else if a3IsAdjacent \<and> a1IsAdjacent then nfAddFace nf newI a3 a1
                else nf);
     addFaces m newI i1 i2 as (nfDeleteFace nf1 a)
   }"

definition getSuccessor :: "mesh \<Rightarrow> nat \<Rightarrow> nat \<Rightarrow> nat option" where
  "getSuccessor m i a = do {
     (a1, a2, a3) \<leftarrow> vertexIndices m a;
     if i = a1 then Some a2 else if i = a2 then Some a3 else if i = a3 then Some a1 else None
   }"

fun countSuccessors :: "mesh \<Rightarrow> nat \<Rightarrow> nat \<Rightarrow> nat list \<Rightarrow> nat \<Rightarrow> nat option" where
  "countSuccessors m i2 succI1 [] n = Some n"
| "countSuccessors m i2 succI1 (a2 # as) n = do {
     s \<leftarrow> getSuccessor m i2 a2;
     countSuccessors m i2 succI1 as (if succI1 = s then n + 1 else n)
   }"

fun countCommon :: "mesh \<Rightarrow> nat \<Rightarrow> nat \<Rightarrow> nat list \<Rightarrow> nat \<Rightarrow> nat option" where
  "countCommon m i1 i2 [] n = Some n"
| "countCommon m i1 i2 (a1 # as) n = do {
     succI1 \<leftarrow> getSuccessor m i1 a1;
     n' \<leftarrow> (if succI1 \<noteq> i2 then countSuccessors m i2 succI1 (adjacentFaces m i2) n else Some n);
     countCommon m i1 i2 as n'
   }"

definition numCommonAdjacentVertices :: "mesh \<Rightarrow> nat \<Rightarrow> nat \<Rightarrow> nat option" where
  "numCommonAdjacentVertices m i1 i2 = countCommon m i1 i2 (adjacentFaces m i1) 0"

text \<open>
  \<^verbatim>\<open>collapseEdge (mesh, i1, i2, faces)\<close>. The mesh is a reference parameter, the face-set
  \<^verbatim>\<open>DynamicFaces faces\<close> is a value parameter: the function works on its own copy. The
  result carries the returned flag, the mesh and that local copy as it is when the function
  returns; what becomes of the copy is up to the model of the caller.
\<close>

definition collapseEdge ::
  "(nat list \<Rightarrow> nat list) \<Rightarrow> mesh \<Rightarrow> nat \<Rightarrow> nat \<Rightarrow> dynamicFaces \<Rightarrow> (bool \<times> mesh \<times> dynamicFaces) option" where
  "collapseEdge ord m i1 i2 faces = do {
     let v1 = valence m i1;
     let v2 = valence m i2;
     assertion (v1 \<ge> 3);
     assertion (v2 \<ge> 3);
     valid \<leftarrow> isValidEdge m i1 i2;
     assertion valid;
     p1 \<leftarrow> vertex m i1;
     p2 \<leftarrow> vertex m i2;
     let newPos = between p1 p2;
     if v1 = 3 then do {
       (deleted, m', faces') \<leftarrow> deleteValence3Vertex m i1 faces;
       if deleted then do { m'' \<leftarrow> setVertex m' i2 newPos; Some (True, m'', faces') }
       else Some (False, m', faces')
     } else if v2 = 3 then do {
       (deleted, m', faces') \<leftarrow> deleteValence3Vertex m i2 faces;
       if deleted then do { m'' \<leftarrow> setVertex m' i1 newPos; Some (True, m'', faces') }
       else Some (False, m', faces')
     } else do {
       (leftFace, leftVertex, rightFace, rightVertex) \<leftarrow> findAdjacent m i1 i2;
       let vLeftVertex = valence m leftVertex;
       let vRightVertex = valence m rightVertex;
       assertion (vLeftVertex \<ge> 3);
       assertion (vRightVertex \<ge> 3);
       if leftVertex = rightVertex then Some (False, m, faces)
       else if vLeftVertex = 3 \<or> vRightVertex = 3 then Some (False, m, faces)
       else do {
         n \<leftarrow> numCommonAdjacentVertices m i1 i2;
         if n = 2 then do {
           let (newI, m1) = addVertex m newPos (0, 0, 0);
           nf1 \<leftarrow> addFaces m1 newI i1 i2 (adjacentFaces m1 i1) emptyNewFaces;
           nf2 \<leftarrow> addFaces m1 newI i2 i1 (adjacentFaces m1 i2) nf1;
           (increasing, m2, faces') \<leftarrow> applyToMesh ord nf2 m1 faces;
           assertion (adjacentFaces m2 i1 = []);
           assertion (adjacentFaces m2 i2 = []);
           m3 \<leftarrow> deleteVertex m2 i1;
           m4 \<leftarrow> deleteVertex m3 i2;
           assertion (isFreeVertex m4 i1);
           assertion (isFreeVertex m4 i2);
           assertion (valence m4 newI = v1 + v2 - 4);
           Some (True, m4, faces')
         } else Some (False, m, faces)
       }
     }
   }"

section \<open>The collapse driver\<close>

text \<open>
  The body of the \<^verbatim>\<open>for\<close> loop of \<^verbatim>\<open>collapseEdges\<close> for the face \<open>i\<close> of the scan set
  \<^verbatim>\<open>current\<close>. The predicate \<^verbatim>\<open>doCollapse\<close> may read the mesh. Each call of
  \<^verbatim>\<open>collapseEdge\<close> receives a copy of \<^verbatim>\<open>current\<close>, which is dropped when the call
  returns: \<^verbatim>\<open>current\<close> itself is not changed.
\<close>

definition visitFace ::
  "(nat list \<Rightarrow> nat list) \<Rightarrow> (mesh \<Rightarrow> nat \<Rightarrow> nat \<Rightarrow> bool option) \<Rightarrow> dynamicFaces \<Rightarrow> nat \<Rightarrow> mesh \<times> bool
     \<Rightarrow> (mesh \<times> bool) option" where
  "visitFace ord doCollapse current i st =
     (case st of (m, collapsed) \<Rightarrow>
        if isFreeFace m i = False then do {
          (i1, i2, i3) \<leftarrow> vertexIndices m i;
          c12 \<leftarrow> doCollapse m i1 i2;
          if c12 then do {
            (r, m', copy) \<leftarrow> collapseEdge ord m i1 i2 current;
            Some (m', r \<or> collapsed)
          } else do {
            c13 \<leftarrow> doCollapse m i1 i3;
            if c13 then do {
              (r, m', copy) \<leftarrow> collapseEdge ord m i1 i3 current;
              Some (m', r \<or> collapsed)
            } else do {
              c23 \<leftarrow> doCollapse m i2 i3;
              if c23 then do {
                (r, m', copy) \<leftarrow> collapseEdge ord m i2 i3 current;
                Some (m', r \<or> collapsed)
              } else Some (m, collapsed)
            }
          }
        } else Some (m, collapsed))"

fun scanFaces ::
  "(nat list \<Rightarrow> nat list) \<Rightarrow> (mesh \<Rightarrow> nat \<Rightarrow> nat \<Rightarrow> bool option) \<Rightarrow> dynamicFaces \<Rightarrow> nat list \<Rightarrow> mesh \<times> bool
     \<Rightarrow> (mesh \<times> bool) option" where
  "scanFaces ord doCollapse current [] st = Some st"
| "scanFaces ord doCollapse current (i # is) st =
     do { st' \<leftarrow> visitFace ord doCollapse current i st; scanFaces ord doCollapse current is st' }"

text \<open>
  The \<^verbatim>\<open>do ... while (current.uncommitted ().empty () == false)\<close> loop of
  \<^verbatim>\<open>collapseEdges\<close>.
\<close>

function collapseLoop ::
  "(nat list \<Rightarrow> nat list) \<Rightarrow> (mesh \<Rightarrow> nat \<Rightarrow> nat \<Rightarrow> bool option) \<Rightarrow> mesh \<Rightarrow> dynamicFaces \<Rightarrow> dynamicFaces \<Rightarrow> bool
     \<Rightarrow> (mesh \<times> dynamicFaces \<times> bool) option" where
  "collapseLoop ord doCollapse m faces current collapsed =
     (let faces1 = insertFaces faces (uncommitted current);
          current1 = commit current
      in case scanFaces ord doCollapse current1 (indices current1) (m, collapsed) of
           None \<Rightarrow> None
         | Some (m', collapsed') \<Rightarrow>
             if uncommitted current1 \<noteq> []
             then collapseLoop ord doCollapse m' faces1 current1 collapsed'
             else Some (m', faces1, collapsed'))"
  by pat_completeness auto
termination
  by (relation "{}") (simp_all add: commit_def)

definition filterFaces :: "(nat \<Rightarrow> bool) \<Rightarrow> dynamicFaces \<Rightarrow> dynamicFaces" where
  "filterFaces p fs = fs\<lparr>indices := filter p (indices fs)\<rparr>"

definition collapseEdges ::
  "(nat list \<Rightarrow> nat list) \<Rightarrow> (mesh \<Rightarrow> nat \<Rightarrow> nat \<Rightarrow> bool option) \<Rightarrow> mesh \<Rightarrow> dynamicFaces
     \<Rightarrow> (bool \<times> mesh \<times> dynamicFaces) option" where
  "collapseEdges ord doCollapse m faces = do {
     let current = insertFaces emptyFaces (indices faces);
     (m', faces1, collapsed) \<leftarrow> collapseLoop ord doCollapse m faces current False;
     let faces2 = filterFaces (\<lambda>f. isFreeFace m' f = False) faces1;
     Some (collapsed, m', commit faces2)
   }"

definition isCollapsable :: "real \<Rightarrow> mesh \<Rightarrow> nat \<Rightarrow> nat \<Rightarrow> bool option" where
  "isCollapsable maxEdgeLengthSqr m i1 i2 = do {
     assertion (isFreeVertex m i1 = False);
     assertion (isFreeVertex m i2 = False);
     p1 \<leftarrow> vertex m i1;
     p2 \<leftarrow> vertex m i2;
     Some (distance2 p1 p2 < maxEdgeLengthSqr)
   }"

definition collapseEdgesByLength ::
  "(nat list \<Rightarrow> nat list) \<Rightarrow> mesh \<Rightarrow> real \<Rightarrow> dynamicFaces \<Rightarrow> (bool \<times> mesh \<times> dynamicFaces) option" where
  "collapseEdgesByLength ord m maxEdgeLengthSqr faces =
     collapseEdges ord (isCollapsable maxEdgeLengthSqr) m faces"

definition collapseAllEdges :: "(nat list \<Rightarrow> nat list) \<Rightarrow> mesh \<Rightarrow> dynamicFaces \<Rightarrow> (bool \<times> mesh \<times> dynamicFaces) option" where
  "collapseAllEdges ord m faces = collapseEdges ord (\<lambda>m i1 i2. Some True) m faces"

definition minEdgeLength :: real where
  "minEdgeLength = 1 / 1000"

section \<open>Finalize and the entry points\<close>

text \<open>
  Modelled from the spec: \<^verbatim>\<open>DynamicMesh::setVertexNormal\<close>,
  \<^verbatim>\<open>DynamicMesh::realignFace\<close> and \<^verbatim>\<open>DynamicMesh::bufferData\<close> are not part of the
  sources at hand. By sections 4.1 and 4.6 of the specification the first stores a normal
  computed from the incident faces (their corners and the positions of these), the second
  recomputes data that is kept per face, and the third serves the display. The normal that is
  computed, as a function of the face array, the positions and the vertex, is a parameter of
  the model; data per face and buffers are not part of the model of the mesh, so that
  \<^verbatim>\<open>finalize\<close> changes the normals of the vertices of the face-set and nothing else.
\<close>

definition setVertexNormal ::
  "(face option list \<Rightarrow> vec3 option list \<Rightarrow> nat \<Rightarrow> vec3) \<Rightarrow> mesh \<Rightarrow> nat \<Rightarrow> mesh" where
  "setVertexNormal normalOf m v =
     m\<lparr>vertexTable :=
         (vertexTable m)[v := map_option
            (\<lambda>(p, n). (p, normalOf (faceTable m) (map (map_option fst) (vertexTable m)) v))
            (vertexTable m ! v)]\<rparr>"

definition finalize ::
  "(face option list \<Rightarrow> vec3 option list \<Rightarrow> nat \<Rightarrow> vec3) \<Rightarrow> mesh \<Rightarrow> dynamicFaces \<Rightarrow> mesh" where
  "finalize normalOf m faces =
     fold (\<lambda>v acc. setVertexNormal normalOf acc v) (forEachVertex m faces) m"

text \<open>\<^verbatim>\<open>ToolSculptAction::collapseDegeneratedEdges\<close>: the returned flag and the mesh.\<close>

definition collapseDegeneratedEdges ::
  "(nat list \<Rightarrow> nat list) \<Rightarrow> (face option list \<Rightarrow> vec3 option list \<Rightarrow> nat \<Rightarrow> vec3) \<Rightarrow> mesh \<Rightarrow> (bool \<times> mesh) option" where
  "collapseDegeneratedEdges ord normalOf m = do {
     let faces = commit (insertFaces emptyFaces (forEachFace m));
     (collapsed, m', faces') \<leftarrow> collapseEdgesByLength ord m (minEdgeLength * minEdgeLength) faces;
     Some (collapsed, finalize normalOf m' faces')
   }"

section \<open>Notions used in the statements and proofs\<close>

text \<open>A face up to the choice of its first corner.\<close>

definition isRotation :: "face \<Rightarrow> face \<Rightarrow> bool" where
  "isRotation t u = (case t of (a, b, c) \<Rightarrow> u = (a, b, c) \<or> u = (b, c, a) \<or> u = (c, a, b))"

text \<open>A list of edge keys that is a set of canonical keys.\<close>

definition canonicalKeys :: "(nat \<times> nat) list \<Rightarrow> bool" where
  "canonicalKeys es = (distinct es \<and> list_all (\<lambda>(a, b). a < b) es)"

text \<open>
  The invariant of the loop of \<^verbatim>\<open>findAdjacent\<close>: a side that has been found names a face
  already visited that holds the edge in the direction of that side, and the two sides name
  different faces.
\<close>

definition sideOK :: "mesh \<Rightarrow> nat \<Rightarrow> nat \<Rightarrow> nat set \<Rightarrow> (nat \<times> nat) option \<Rightarrow> bool" where
  "sideOK m e1 e2 done s =
     (case s of None \<Rightarrow> True
      | Some (a, v) \<Rightarrow> a \<in> done \<and> (\<exists>t. vertexIndices m a = Some t \<and> isRotation (e1, e2, v) t))"

definition adjInv ::
  "mesh \<Rightarrow> nat \<Rightarrow> nat \<Rightarrow> nat set \<Rightarrow> (nat \<times> nat) option \<times> (nat \<times> nat) option \<Rightarrow> bool" where
  "adjInv m e1 e2 done st =
     (sideOK m e1 e2 done (fst st) \<and> sideOK m e2 e1 done (snd st) \<and>
      (case st of (Some (a, v), Some (b, w)) \<Rightarrow> a \<noteq> b | _ \<Rightarrow> True))"

text \<open>
  The free-list of vertices is sound: it has no duplicates and names free slots of the
  vertex array only (property 3 of section 8 of the specification).
\<close>

definition freeVerticesOK :: "mesh \<Rightarrow> bool" where
  "freeVerticesOK m =
     (distinct (freeVertexIndices m) \<and>
      list_all (\<lambda>i. i < length (vertexTable m) \<and> vertexTable m ! i = None) (freeVertexIndices m))"

text \<open>The canonical keys of the three edges of a face, in the order in which they are visited.\<close>

fun faceKeys :: "face \<Rightarrow> (nat \<times> nat) list" where
  "faceKeys (i1, i2, i3) = [(min i1 i2, max i1 i2), (min i1 i3, max i1 i3), (min i2 i3, max i2 i3)]"

definition meshFaceKeys :: "mesh \<Rightarrow> nat \<Rightarrow> (nat \<times> nat) list" where
  "meshFaceKeys m f = (case vertexIndices m f of None \<Rightarrow> [] | Some t \<Rightarrow> faceKeys t)"

text \<open>
  An edge of the face \<open>f\<close> was split during the pass: one of its edges has no midpoint in
  the map before the pass and has one after it.
\<close>

definition edgeWasSplit :: "mesh \<Rightarrow> newVertices \<Rightarrow> newVertices \<Rightarrow> nat \<Rightarrow> bool" where
  "edgeWasSplit m newV newV' f = list_ex (\<lambda>k. newV k = None \<and> newV' k \<noteq> None) (meshFaceKeys m f)"

text \<open>
  An edge of the face \<open>f\<close> was split while \<open>f\<close> itself was visited: it received its
  midpoint during the pass, and no face visited before \<open>f\<close> has this edge.
\<close>

definition splitByFace :: "mesh \<Rightarrow> newVertices \<Rightarrow> newVertices \<Rightarrow> nat list \<Rightarrow> nat \<Rightarrow> bool" where
  "splitByFace m newV newV' fs f =
     list_ex (\<lambda>k. newV k = None \<and> newV' k \<noteq> None \<and>
                  list_all (\<lambda>g. k \<notin> set (meshFaceKeys m g)) (takeWhile (\<lambda>g. g \<noteq> f) fs))
       (meshFaceKeys m f)"

text \<open>
  For the proofs about \<^verbatim>\<open>splitEdges\<close>: an edge whose ends have positions that are not
  further apart than the bound; a mesh that keeps the positions of another; and the summaries
  of the visit of one edge and of one face.
\<close>

definition notLong :: "real \<Rightarrow> mesh \<Rightarrow> nat \<times> nat \<Rightarrow> bool" where
  "notLong maxLength m k =
     (\<exists>pa pb. vertex m (fst k) = Some pa \<and> vertex m (snd k) = Some pb \<and>
              \<not> distance2 pa pb > maxLength * maxLength)"

definition stable :: "mesh \<Rightarrow> mesh \<Rightarrow> bool" where
  "stable m m1 = (\<forall>i p. vertex m i = Some p \<longrightarrow> vertex m1 i = Some p)"

definition stepOK ::
  "real \<Rightarrow> nat \<times> nat \<Rightarrow> bool \<times> mesh \<times> newVertices \<Rightarrow> bool \<times> mesh \<times> newVertices \<Rightarrow> bool" where
  "stepOK ml k0 st st1 =
     (case st of (w, m, nv) \<Rightarrow> case st1 of (w1, m1, nv1) \<Rightarrow>
        faceTable m1 = faceTable m \<and> freeVerticesOK m1 \<and> stable m m1 \<and>
        (\<forall>k. k \<noteq> k0 \<longrightarrow> nv1 k = nv k) \<and>
        (nv k0 \<noteq> None \<longrightarrow> nv1 k0 = nv k0 \<and> w1 = w) \<and>
        (nv k0 = None \<longrightarrow> w1 = (w \<or> nv1 k0 \<noteq> None)) \<and>
        (nv1 k0 = None \<longrightarrow> notLong ml m1 k0) \<and>
        (notLong ml m k0 \<and> nv k0 = None \<longrightarrow> nv1 k0 = None))"

definition faceOK ::
  "real \<Rightarrow> (nat \<times> nat) list \<Rightarrow> mesh \<Rightarrow> newVertices \<Rightarrow> bool \<times> mesh \<times> newVertices \<Rightarrow> bool" where
  "faceOK ml ks m nv st =
     (case st of (w, m3, nv3) \<Rightarrow>
        faceTable m3 = faceTable m \<and> freeVerticesOK m3 \<and> stable m m3 \<and>
        (\<forall>k. nv3 k \<noteq> nv k \<longrightarrow> k \<in> set ks \<and> nv k = None) \<and>
        (\<forall>k \<in> set ks. nv3 k = None \<longrightarrow> notLong ml m3 k) \<and>
        w = (\<exists>k \<in> set ks. nv k = None \<and> nv3 k \<noteq> None) \<and>
        (\<forall>k. notLong ml m k \<and> nv k = None \<longrightarrow> nv3 k = None))"

text \<open>
  One attempt of the driver on the edge \<open>(a, b)\<close> of a visited face: the mesh it leaves (the
  mesh as it was when the collapse is rejected) and the flag.
\<close>

definition attemptCollapse :: "(nat list \<Rightarrow> nat list) \<Rightarrow> mesh \<Rightarrow> dynamicFaces \<Rightarrow> bool \<Rightarrow> nat \<Rightarrow> nat \<Rightarrow> (mesh \<times> bool) option" where
  "attemptCollapse ord m current collapsed a b =
     (case collapseEdge ord m a b current of
        None \<Rightarrow> None
      | Some (r, m', copy) \<Rightarrow> Some (if r then m' else m, r \<or> collapsed))"

text \<open>
  The three parts of the body of \<^verbatim>\<open>collapseEdge\<close>, named for the proofs: the collapse
  through the removal of a vertex of valence 3, the collapse that creates a new vertex, and
  the rejections that precede it.
\<close>

definition collapseValence3 ::
  "mesh \<Rightarrow> nat \<Rightarrow> nat \<Rightarrow> vec3 \<Rightarrow> dynamicFaces \<Rightarrow> (bool \<times> mesh \<times> dynamicFaces) option" where
  "collapseValence3 m i j newPos faces = do {
     (deleted, m', faces') \<leftarrow> deleteValence3Vertex m i faces;
     if deleted then do { m'' \<leftarrow> setVertex m' j newPos; Some (True, m'', faces') }
     else Some (False, m', faces')
   }"

definition collapsePerform ::
  "(nat list \<Rightarrow> nat list) \<Rightarrow> mesh \<Rightarrow> nat \<Rightarrow> nat \<Rightarrow> vec3 \<Rightarrow> dynamicFaces \<Rightarrow> (bool \<times> mesh \<times> dynamicFaces) option" where
  "collapsePerform ord m i1 i2 newPos faces = do {
     let (newI, m1) = addVertex m newPos (0, 0, 0);
     nf1 \<leftarrow> addFaces m1 newI i1 i2 (adjacentFaces m1 i1) emptyNewFaces;
     nf2 \<leftarrow> addFaces m1 newI i2 i1 (adjacentFaces m1 i2) nf1;
     (increasing, m2, faces') \<leftarrow> applyToMesh ord nf2 m1 faces;
     assertion (adjacentFaces m2 i1 = []);
     assertion (adjacentFaces m2 i2 = []);
     m3 \<leftarrow> deleteVertex m2 i1;
     m4 \<leftarrow> deleteVertex m3 i2;
     assertion (isFreeVertex m4 i1);
     assertion (isFreeVertex m4 i2);
     assertion (valence m4 newI = valence m i1 + valence m i2 - 4);
     Some (True, m4, faces')
   }"

definition collapseGeneral ::
  "(nat list \<Rightarrow> nat list) \<Rightarrow> mesh \<Rightarrow> nat \<Rightarrow> nat \<Rightarrow> vec3 \<Rightarrow> dynamicFaces \<Rightarrow> (bool \<times> mesh \<times> dynamicFaces) option" where
  "collapseGeneral ord m i1 i2 newPos faces = do {
     (leftFace, leftVertex, rightFace, rightVertex) \<leftarrow> findAdjacent m i1 i2;
     assertion (valence m leftVertex \<ge> 3);
     assertion (valence m rightVertex \<ge> 3);
     if leftVertex = rightVertex then Some (False, m, faces)
     else if valence m leftVertex = 3 \<or> valence m rightVertex = 3 then Some (False, m, faces)
     else do {
       n \<leftarrow> numCommonAdjacentVertices m i1 i2;
       if n = 2 then collapsePerform ord m i1 i2 newPos faces else Some (False, m, faces)
     }
   }"

text \<open>
  Two meshes of the same shape: the same faces and the same positions; the normals and the
  lists of free indices may differ.
\<close>

definition sameShape :: "mesh \<Rightarrow> mesh \<Rightarrow> bool" where
  "sameShape m m' =
     (faceTable m' = faceTable m \<and>
      map (map_option fst) (vertexTable m') = map (map_option fst) (vertexTable m))"

text \<open>The end of \<^verbatim>\<open>deleteValence3Vertex\<close>, after the three neighbours are found.\<close>

definition d3Tail ::
  "mesh \<Rightarrow> nat \<Rightarrow> dynamicFaces \<Rightarrow> nat \<Rightarrow> nat \<Rightarrow> nat \<Rightarrow> nat \<Rightarrow> nat \<Rightarrow> nat
     \<Rightarrow> (bool \<times> mesh \<times> dynamicFaces) option" where
  "d3Tail m i faces adj1 adj2 adj3 newI1 newI2 newI3 =
     (if valence m newI1 > 3 \<and> valence m newI2 > 3 \<and> valence m newI3 > 3 then do {
        m1 \<leftarrow> deleteFace m adj1;
        m2 \<leftarrow> deleteFace m1 adj2;
        m3 \<leftarrow> deleteFace m2 adj3;
        m4 \<leftarrow> deleteVertex m3 i;
        let (f, m5) = addFace m4 newI1 newI2 newI3;
        Some (True, m5, insertFace faces f)
      } else Some (False, m, faces))"

text \<open>The start of \<^verbatim>\<open>deleteValence3Vertex\<close>: the three neighbours of the vertex.\<close>

definition d3Reads :: "mesh \<Rightarrow> nat \<Rightarrow> (nat \<times> nat \<times> nat) option" where
  "d3Reads m i = do {
     assertion (isFreeVertex m i = False);
     assertion (valence m i = 3);
     (adj11, adj12, adj13) \<leftarrow> vertexIndices m (adjacentFaces m i ! 0);
     (adj21, adj22, adj23) \<leftarrow> vertexIndices m (adjacentFaces m i ! 1);
     (newI1, newI2) \<leftarrow>
       (if i = adj11 then Some (adj12, adj13)
        else if i = adj12 then Some (adj13, adj11)
        else if i = adj13 then Some (adj11, adj12)
        else None);
     newI3 \<leftarrow>
       (if adj21 \<noteq> newI1 \<and> adj21 \<noteq> newI2 then Some adj21
        else if adj22 \<noteq> newI1 \<and> adj22 \<noteq> newI2 then Some adj22
        else if adj23 \<noteq> newI1 \<and> adj23 \<noteq> newI2 then Some adj23
        else None);
     assertion (newI1 \<noteq> newI2);
     assertion (newI1 \<noteq> newI3);
     assertion (newI2 \<noteq> newI3);
     Some (newI1, newI2, newI3)
   }"

text \<open>
  \<^verbatim>\<open>setVertexNormal\<close> on the array of the vertices, for a fixed way \<open>nrm\<close> of computing the
  normal of a vertex.
\<close>

definition putNormal :: "(nat \<Rightarrow> vec3) \<Rightarrow> nat \<Rightarrow> (vec3 \<times> vec3) option list
    \<Rightarrow> (vec3 \<times> vec3) option list" where
  "putNormal nrm v vt = vt[v := map_option (\<lambda>(p, n). (p, nrm v)) (vt ! v)]"

text \<open>
  An order of iteration over a set lists the elements that were inserted, each of them once.
\<close>

definition isOrder :: "('a list \<Rightarrow> 'a list) \<Rightarrow> bool" where
  "isOrder ord = (\<forall>xs. distinct xs \<longrightarrow> distinct (ord xs) \<and> set (ord xs) = set xs)"

text \<open>
  The faces that the body of the loop of \<^verbatim>\<open>triangulate\<close> adds for a face
  \<open>(i1, i2, i3)\<close>, as a table over the midpoints found on its edges, read off the branches
  of the source; \<open>val\<close> is the valence. The body is \<open>triangulateFace\<close>; that the table
  agrees with it is proved below.
\<close>

fun sourceFan :: "(nat \<Rightarrow> nat) \<Rightarrow> face \<Rightarrow> nat option \<Rightarrow> nat option \<Rightarrow> nat option \<Rightarrow> face list" where
  "sourceFan val (i1, i2, i3) None None None = []"
| "sourceFan val (i1, i2, i3) (Some m12) None None = [(i1, m12, i3), (i3, m12, i2)]"
| "sourceFan val (i1, i2, i3) None (Some m13) None = [(i3, m13, i2), (i2, m13, i1)]"
| "sourceFan val (i1, i2, i3) None None (Some m23) = [(i2, m23, i1), (i1, m23, i3)]"
| "sourceFan val (i1, i2, i3) (Some m12) (Some m13) None =
     (m12, m13, i1) #
     (if val i2 < val i3 then [(i2, i3, m13), (i2, m13, m12)]
      else [(i3, m12, i2), (i3, m13, m12)])"
| "sourceFan val (i1, i2, i3) (Some m12) None (Some m23) =
     (m23, m12, i2) #
     (if val i1 < val i3 then [(i1, m23, i3), (i1, m12, m23)]
      else [(i3, i1, m12), (i3, m12, m23)])"
| "sourceFan val (i1, i2, i3) None (Some m13) (Some m23) =
     (m13, m23, i3) #
     (if val i1 < val i2 then [(i1, i2, m23), (i1, m23, m13)]
      else [(i2, m13, i1), (i2, m23, m13)])"
| "sourceFan val (i1, i2, i3) (Some m12) (Some m13) (Some m23) =
     [(m12, m23, m13), (i1, m12, m13), (i2, m23, m12), (i3, m13, m23)]"

text \<open>
  For the statements about \<^verbatim>\<open>triangulate\<close>: the faces that the body of its loop adds for
  the face \<open>f\<close>, the list of the faces that a mesh holds, and the soundness of the free-list
  of faces (it has no duplicates and names free slots of the face array only).
\<close>

definition replacement :: "mesh \<Rightarrow> newVertices \<Rightarrow> nat \<Rightarrow> face list" where
  "replacement m newV f =
     (case triangulateFace m newV emptyNewFaces f of
        None \<Rightarrow> []
      | Some nf \<Rightarrow> nfVertexIndices nf)"

definition liveOf :: "face option list \<Rightarrow> face list" where
  "liveOf ft = map the (filter (\<lambda>x. x \<noteq> None) ft)"

definition liveFaces :: "mesh \<Rightarrow> face list" where
  "liveFaces m = liveOf (faceTable m)"

definition freeFacesOK :: "mesh \<Rightarrow> bool" where
  "freeFacesOK m =
     (distinct (freeFaceIndices m) \<and>
      list_all (\<lambda>f. f < length (faceTable m) \<and> faceTable m ! f = None) (freeFaceIndices m))"

text \<open>
  The pass of section 4.4 of the specification over a list of candidate edges, from its
  words. Each edge \<open>(e1, e2)\<close> is considered in its turn, on the mesh that the edges before
  it have left: its two incident faces hold it in the one and in the other direction, with
  the opposite vertices \<open>vL\<close> and \<open>vR\<close>; the flip is performed if and only if
  \<open>v(e1) > 3\<close>, \<open>v(e2) > 3\<close> and \<open>post < pre\<close>; a flip replaces the two incident faces by
  \<open>(vL, e1, vR)\<close> and \<open>(vR, e2, vL)\<close>, and without a flip the mesh stays as it is.
\<close>

definition flipCondition :: "mesh \<Rightarrow> nat \<Rightarrow> nat \<Rightarrow> nat \<Rightarrow> nat \<Rightarrow> bool" where
  "flipCondition m e1 e2 vL vR =
     (3 < valence m e1 \<and> 3 < valence m e2 \<and>
      \<bar>int (valence m e1) - 7\<bar> + \<bar>int (valence m e2) - 7\<bar> +
        \<bar>int (valence m vL) - 5\<bar> + \<bar>int (valence m vR) - 5\<bar>
      < \<bar>int (valence m e1) - 6\<bar> + \<bar>int (valence m e2) - 6\<bar> +
        \<bar>int (valence m vL) - 6\<bar> + \<bar>int (valence m vR) - 6\<bar>)"

definition flipped :: "mesh \<Rightarrow> nat \<Rightarrow> nat \<Rightarrow> nat \<Rightarrow> nat \<Rightarrow> nat \<Rightarrow> nat \<Rightarrow> mesh" where
  "flipped m e1 e2 lf vL rf vR =
     m\<lparr>faceTable := (faceTable m)[rf := Some (vL, e1, vR), lf := Some (vR, e2, vL)]\<rparr>"

inductive flipPass :: "(nat \<times> nat) list \<Rightarrow> mesh \<Rightarrow> mesh \<Rightarrow> bool" where
  none: "flipPass [] m m"
| edge: "findAdjacent m e1 e2 = Some (lf, vL, rf, vR) \<Longrightarrow>
         vertexIndices m lf = Some t \<Longrightarrow> isRotation (e1, e2, vL) t \<Longrightarrow>
         vertexIndices m rf = Some u \<Longrightarrow> isRotation (e2, e1, vR) u \<Longrightarrow> lf \<noteq> rf \<Longrightarrow>
         flipPass es (if flipCondition m e1 e2 vL vR then flipped m e1 e2 lf vL rf vR else m) m' \<Longrightarrow>
         flipPass ((e1, e2) # es) m m'"

code_pred flipPass .








section \<open>Example meshes\<close>

text \<open>
  A closed double pyramid over a heptagon: the apexes 0 and 8 have valence 7, the seven
  vertices of the base have valence 4.
\<close>

definition bipyramid :: mesh where
  "bipyramid =
     \<lparr>vertexTable = map (\<lambda>p. Some (p, (0, 0, 1)))
        [(0, 0, 2), (3, 0, 0), (2, 2, 0), (-1, 3, 0), (-3, 1, 0), (-3, -2, 0), (-1, -3, 0),
         (2, -2, 0), (0, 0, -2)],
      freeVertexIndices = [],
      faceTable = map Some
        [(0, 1, 2), (0, 2, 3), (0, 3, 4), (0, 4, 5), (0, 5, 6), (0, 6, 7), (0, 7, 1),
         (8, 2, 1), (8, 3, 2), (8, 4, 3), (8, 5, 4), (8, 6, 5), (8, 7, 6), (8, 1, 7)],
      freeFaceIndices = []\<rparr>"

text \<open>
  The regular octahedron with corners on the axes; the normal of a vertex is its position.
  All twelve edges have squared length 2.
\<close>

definition octahedron :: mesh where
  "octahedron =
     \<lparr>vertexTable = map (\<lambda>p. Some (p, p))
        [(0, 0, 1), (0, 0, -1), (1, 0, 0), (0, 1, 0), (-1, 0, 0), (0, -1, 0)],
      freeVertexIndices = [],
      faceTable = map Some
        [(0, 2, 3), (0, 3, 4), (0, 4, 5), (0, 5, 2), (1, 3, 2), (1, 4, 3), (1, 5, 4), (1, 2, 5)],
      freeFaceIndices = []\<rparr>"

text \<open>
  The octahedron with the face \<open>(1, 3, 2)\<close> divided in three around a new vertex 6 of valence
  3; the face \<open>(0, 2, 3)\<close> is stored from its corner 2 and the face \<open>(1, 3, 6)\<close> from its
  corner 6.
\<close>

definition capped :: mesh where
  "capped =
     \<lparr>vertexTable = map (\<lambda>p. Some (p, p))
        [(0, 0, 1), (0, 0, -1), (1, 0, 0), (0, 1, 0), (-1, 0, 0), (0, -1, 0),
         (1 / 2, 1 / 2, - 1 / 2)],
      freeVertexIndices = [],
      faceTable = map Some
        [(2, 3, 0), (0, 3, 4), (0, 4, 5), (0, 5, 2), (6, 1, 3), (3, 2, 6), (2, 1, 6),
         (1, 4, 3), (1, 5, 4), (1, 2, 5)],
      freeFaceIndices = []\<rparr>"

text \<open>
  A double pyramid over a heptagon with the apexes 0 and 8, whose base vertices 1 and 2 are
  0.0008 apart, with the base vertex 7 at a distance of 0.00095 from their midpoint and of
  more than 0.001 from each of them. The faces of the vertex 1 have the indices 1 to 4, the
  two faces of the edge \<open>(1, 2)\<close> the indices 3 and 4.
\<close>

definition pinched :: mesh where
  "pinched =
     \<lparr>vertexTable = map (\<lambda>p. Some (p, (0, 0, 1)))
        [(0, 0, 2), (3, - 4 / 10000, 0), (3, 4 / 10000, 0), (-1, 3, 0), (-3, 1, 0),
         (-3, -2, 0), (-1, -3, 0), (3, 0, 95 / 100000), (0, 0, -2)],
      freeVertexIndices = [],
      faceTable = map Some
        [(0, 3, 4), (0, 7, 1), (8, 1, 7), (0, 1, 2), (8, 2, 1), (0, 2, 3), (8, 3, 2),
         (0, 4, 5), (0, 5, 6), (0, 6, 7), (8, 4, 3), (8, 5, 4), (8, 6, 5), (8, 7, 6)],
      freeFaceIndices = []\<rparr>"

text \<open>The mesh \<open>capped\<close> after the collapse of its edge \<open>(6, 1)\<close>.\<close>

definition cappedOnce :: mesh where
  "cappedOnce =
     \<lparr>vertexTable =
        [Some ((0, 0, 1), (0, 0, 1)), Some ((1 / 4, 1 / 4, - 3 / 4), (0, 0, -1)),
         Some ((1, 0, 0), (1, 0, 0)), Some ((0, 1, 0), (0, 1, 0)),
         Some ((-1, 0, 0), (-1, 0, 0)), Some ((0, -1, 0), (0, -1, 0)), None],
      freeVertexIndices = [6],
      faceTable =
        [Some (2, 3, 0), Some (0, 3, 4), Some (0, 4, 5), Some (0, 5, 2), None, None,
         Some (1, 3, 2), Some (1, 4, 3), Some (1, 5, 4), Some (1, 2, 5)],
      freeFaceIndices = [5, 4]\<rparr>"

text \<open>
  A way of computing normals that gives every vertex the normal \<open>(0, 0, 1)\<close>, and the mesh
  \<open>octahedron\<close> with these normals.
\<close>

definition upNormal :: "face option list \<Rightarrow> vec3 option list \<Rightarrow> nat \<Rightarrow> vec3" where
  "upNormal ft vt v = (0, 0, 1)"

definition octahedronUp :: mesh where
  "octahedronUp =
     octahedron\<lparr>vertexTable := map (map_option (\<lambda>(p, n). (p, (0, 0, 1)))) (vertexTable octahedron)\<rparr>"

text \<open>
  An order of iteration for the examples: the order in which the GNU implementation of
  \<^verbatim>\<open>std::unordered_set<unsigned int>\<close> lists a set of at most 13 elements that was
  built by the given insertions. The hash of a number is the number, the table has 13
  buckets, and a new element is linked in front of the elements of its bucket or, when the
  bucket is empty, in front of the whole list.
\<close>

definition gnuInsert :: "nat \<Rightarrow> nat list \<Rightarrow> nat list" where
  "gnuInsert x xs =
     (if x \<in> set xs then xs
      else if list_ex (\<lambda>y. y mod 13 = x mod 13) xs
      then takeWhile (\<lambda>y. y mod 13 \<noteq> x mod 13) xs @ x # dropWhile (\<lambda>y. y mod 13 \<noteq> x mod 13) xs
      else x # xs)"

definition gnuOrder :: "nat list \<Rightarrow> nat list" where
  "gnuOrder xs = fold gnuInsert xs []"

section \<open>Theorems\<close>

lemma assertion_Some [simp]: "(assertion b = Some u) = b"
  by (simp add: assertion_def)

lemma assertion_None [simp]: "(assertion b = None) = (\<not> b)"
  by (simp add: assertion_def)

lemma assertion_True [simp]: "assertion True = Some ()"
  by (simp add: assertion_def)

lemma assertion_False [simp]: "assertion False = None"
  by (simp add: assertion_def)

lemma makeUiKey_eq [simp]:
  "i1 \<noteq> i2 \<Longrightarrow> makeUiKey i1 i2 = Some (min i1 i2, max i1 i2)"
  by (simp add: makeUiKey_def)

lemma makeUiKey_same [simp]: "makeUiKey i i = None"
  by (simp add: makeUiKey_def)

lemma findVertex_eq [simp]:
  "i1 \<noteq> i2 \<Longrightarrow> findVertex newV i1 i2 = Some (newV (min i1 i2, max i1 i2))"
  by (simp add: findVertex_def)

lemma triangulateFace_step:
  assumes "vertexIndices m f = Some (i1, i2, i3)"
    and "i1 \<noteq> i2" and "i1 \<noteq> i3" and "i2 \<noteq> i3"
  shows "triangulateFace m newV newF f =
         Some \<lparr>nfVertexIndices = nfVertexIndices newF @
                  sourceFan (valence m) (i1, i2, i3)
                    (newV (min i1 i2, max i1 i2)) (newV (min i1 i3, max i1 i3))
                    (newV (min i2 i3, max i2 i3)),
               facesToDelete =
                 (if newV (min i1 i2, max i1 i2) = None \<and> newV (min i1 i3, max i1 i3) = None
                     \<and> newV (min i2 i3, max i2 i3) = None \<or> f \<in> set (facesToDelete newF)
                  then facesToDelete newF else facesToDelete newF @ [f])\<rparr>"
  using assms
  by (cases "newV (min i1 i2, max i1 i2)"; cases "newV (min i1 i3, max i1 i3)";
      cases "newV (min i2 i3, max i2 i3)")
     (simp_all add: triangulateFace_def nfAddFace_def nfDeleteFace_def Let_def)

lemma gnuInsert_set: "set (gnuInsert x xs) = insert x (set xs)"
proof -
  have "set (takeWhile (\<lambda>y. y mod 13 \<noteq> x mod 13) xs @ x # dropWhile (\<lambda>y. y mod 13 \<noteq> x mod 13) xs)
        = insert x (set (takeWhile (\<lambda>y. y mod 13 \<noteq> x mod 13) xs @ dropWhile (\<lambda>y. y mod 13 \<noteq> x mod 13) xs))"
    by (simp only: set_append list.set) blast
  then show ?thesis by (auto simp: gnuInsert_def simp del: set_append)
qed

lemma distinct_insert_middle:
  "distinct (as @ bs) \<Longrightarrow> x \<notin> set (as @ bs) \<Longrightarrow> distinct (as @ x # bs)"
  by auto

lemma gnuInsert_distinct: "distinct xs \<Longrightarrow> distinct (gnuInsert x xs)"
proof -
  assume d: "distinct xs"
  let ?P = "\<lambda>y. y mod 13 \<noteq> x mod 13"
  have "distinct (takeWhile ?P xs @ x # dropWhile ?P xs)" if "x \<notin> set xs"
    by (rule distinct_insert_middle) (use d that in simp_all)
  with d show ?thesis by (simp add: gnuInsert_def)
qed

lemma fold_gnuInsert:
  "distinct acc \<Longrightarrow> distinct (fold gnuInsert xs acc) \<and> set (fold gnuInsert xs acc) = set xs \<union> set acc"
proof (induction xs arbitrary: acc)
  case Nil
  then show ?case by simp
next
  case (Cons x xs)
  from Cons.IH[OF gnuInsert_distinct[OF Cons.prems, of x]] show ?case
    by (auto simp: gnuInsert_set)
qed

lemma gnuOrder_isOrder: "isOrder gnuOrder"
  using fold_gnuInsert[of "[]"] by (simp add: isOrder_def gnuOrder_def)

lemma insertion_isOrder: "isOrder (\<lambda>xs. xs)"
  by (simp add: isOrder_def)

lemma isOrderD:
  assumes "isOrder ord" and "distinct xs"
  shows "distinct (ord xs)" and "set (ord xs) = set xs" and "length (ord xs) = length xs"
proof -
  from assms show d: "distinct (ord xs)" and s: "set (ord xs) = set xs"
    by (simp_all add: isOrder_def)
  from d s assms(2) show "length (ord xs) = length xs" by (metis distinct_card)
qed

lemma adjacentFaces_distinct: "distinct (adjacentFaces m v)"
  by (simp add: adjacentFaces_def)



lemma findAdjacentStep_cases:
  "findAdjacentStep e1 e2 a t st = st \<or>
   (\<exists>v. isRotation (e1, e2, v) t \<and> findAdjacentStep e1 e2 a t st = (Some (a, v), snd st)) \<or>
   (\<exists>v. isRotation (e2, e1, v) t \<and> findAdjacentStep e1 e2 a t st = (fst st, Some (a, v)))"
  by (cases t) (simp add: findAdjacentStep_def isRotation_def)

lemma sideOK_mono: "sideOK m e1 e2 done s \<Longrightarrow> sideOK m e1 e2 (insert a done) s"
  by (cases s) (auto simp: sideOK_def)

lemma sideOK_mem: "sideOK m e1 e2 done (Some (b, w)) \<Longrightarrow> b \<in> done"
  by (simp add: sideOK_def)

lemma findAdjacentStep_inv:
  assumes inv: "adjInv m e1 e2 done st" and a: "a \<notin> done" and t: "vertexIndices m a = Some t"
  shows "adjInv m e1 e2 (insert a done) (findAdjacentStep e1 e2 a t st)"
proof -
  obtain l r where st: "st = (l, r)" by (cases st)
  from inv st have l: "sideOK m e1 e2 done l" and r: "sideOK m e2 e1 done r"
    by (simp_all add: adjInv_def)
  consider (same) "findAdjacentStep e1 e2 a t st = st"
    | (left) v where "isRotation (e1, e2, v) t" "findAdjacentStep e1 e2 a t st = (Some (a, v), r)"
    | (right) v where "isRotation (e2, e1, v) t" "findAdjacentStep e1 e2 a t st = (l, Some (a, v))"
    using findAdjacentStep_cases[of e1 e2 a t st] st by auto
  then show ?thesis
  proof cases
    case same
    with inv st l r show ?thesis
      by (auto simp: adjInv_def intro: sideOK_mono split: option.splits)
  next
    case left
    have "sideOK m e1 e2 (insert a done) (Some (a, v))"
      using left t by (cases t) (simp add: sideOK_def)
    moreover have "\<And>b w. r = Some (b, w) \<Longrightarrow> a \<noteq> b"
      using r a sideOK_mem by blast
    ultimately show ?thesis using left r
      by (auto simp: adjInv_def intro: sideOK_mono split: option.splits)
  next
    case right
    have "sideOK m e2 e1 (insert a done) (Some (a, v))"
      using right t by (cases t) (simp add: sideOK_def)
    moreover have "\<And>b w. l = Some (b, w) \<Longrightarrow> b \<noteq> a"
      using l a sideOK_mem by blast
    ultimately show ?thesis using right l
      by (auto simp: adjInv_def intro: sideOK_mono split: option.splits)
  qed
qed

lemma findAdjacentLoop_inv:
  assumes "findAdjacentLoop m e1 e2 as st = Some st'" and "distinct as"
    and "set as \<inter> done = {}" and "adjInv m e1 e2 done st"
  shows "adjInv m e1 e2 (done \<union> set as) st'"
  using assms
proof (induction as arbitrary: st "done")
  case Nil
  then show ?case by simp
next
  case (Cons a as)
  from Cons.prems(1) obtain t where t: "vertexIndices m a = Some t"
    and rest: "findAdjacentLoop m e1 e2 as (findAdjacentStep e1 e2 a t st) = Some st'"
    by (auto split: Option.bind_splits)
  have "adjInv m e1 e2 (insert a done) (findAdjacentStep e1 e2 a t st)"
    using Cons.prems t by (intro findAdjacentStep_inv) auto
  from Cons.IH[OF rest _ _ this] Cons.prems show ?case by auto
qed

lemma findAdjacent_sound:
  assumes "findAdjacent m e1 e2 = Some (lf, lv, rf, rv)"
  shows "lf \<noteq> rf"
    and "\<exists>t. vertexIndices m lf = Some t \<and> isRotation (e1, e2, lv) t"
    and "\<exists>t. vertexIndices m rf = Some t \<and> isRotation (e2, e1, rv) t"
proof -
  from assms obtain st where st: "findAdjacentLoop m e1 e2 (adjacentFaces m e1) (None, None) = Some st"
    and l: "fst st = Some (lf, lv)" and r: "snd st = Some (rf, rv)"
    by (auto simp: findAdjacent_def split: Option.bind_splits)
  have "adjInv m e1 e2 ({} \<union> set (adjacentFaces m e1)) st"
    by (rule findAdjacentLoop_inv[OF st adjacentFaces_distinct]) (simp_all add: adjInv_def sideOK_def)
  with l r show "lf \<noteq> rf"
    and "\<exists>t. vertexIndices m lf = Some t \<and> isRotation (e1, e2, lv) t"
    and "\<exists>t. vertexIndices m rf = Some t \<and> isRotation (e2, e1, rv) t"
    by (cases st; auto simp: adjInv_def sideOK_def)+
qed

lemma vertexIndices_Some_iff:
  "vertexIndices m f = Some t \<longleftrightarrow> f < length (faceTable m) \<and> faceTable m ! f = Some t"
  by (simp add: vertexIndices_def)

lemma relaxEdge_flip:
  assumes fa: "findAdjacent m e1 e2 = Some (lf, lv, rf, rv)"
    and rel: "isRelaxable m (e1, e2) lv rv"
  shows "relaxEdge m (e1, e2) =
         Some (m\<lparr>faceTable := (faceTable m)[rf := Some (lv, e1, rv), lf := Some (rv, e2, lv)]\<rparr>)"
proof -
  from findAdjacent_sound[OF fa] obtain t u where ne: "lf \<noteq> rf"
    and t: "vertexIndices m lf = Some t" and u: "vertexIndices m rf = Some u" by blast
  from t u have b: "lf < length (faceTable m)" "rf < length (faceTable m)"
    "faceTable m ! lf \<noteq> None" "faceTable m ! rf \<noteq> None"
    by (simp_all add: vertexIndices_Some_iff)
  show ?thesis
    using ne b fa rel
    by (simp add: relaxEdge_def deleteFace_def isFreeFace_def addFace_def list_update_swap[of lf rf])
qed

lemma relaxEdge_noflip:
  assumes fa: "findAdjacent m e1 e2 = Some (lf, lv, rf, rv)"
    and rel: "\<not> isRelaxable m (e1, e2) lv rv"
  shows "relaxEdge m (e1, e2) = Some m"
  using assms by (simp add: relaxEdge_def)


lemma relaxEdge_preserves:
  assumes "relaxEdge m edge = Some m'"
  shows "length (faceTable m') = length (faceTable m) \<and>
         freeFaceIndices m' = freeFaceIndices m \<and> (\<forall>f. isFreeFace m' f = isFreeFace m f)"
proof -
  obtain e1 e2 where e: "edge = (e1, e2)" by (cases edge)
  from assms e obtain lf lv rf rv where fa: "findAdjacent m e1 e2 = Some (lf, lv, rf, rv)"
    by (auto simp: relaxEdge_def split: Option.bind_splits)
  show ?thesis
  proof (cases "isRelaxable m (e1, e2) lv rv")
    case True
    from findAdjacent_sound[OF fa] obtain t u where
      t: "vertexIndices m lf = Some t" and u: "vertexIndices m rf = Some u" by blast
    from relaxEdge_flip[OF fa True] assms e
    have m': "m' = m\<lparr>faceTable := (faceTable m)[rf := Some (lv, e1, rv), lf := Some (rv, e2, lv)]\<rparr>"
      by simp
    from t u have "lf < length (faceTable m)" "rf < length (faceTable m)"
      "faceTable m ! lf \<noteq> None" "faceTable m ! rf \<noteq> None"
      by (simp_all add: vertexIndices_Some_iff)
    then show ?thesis
      by (auto simp: m' isFreeFace_def nth_list_update)
  next
    case False
    from relaxEdge_noflip[OF fa False] assms e show ?thesis by simp
  qed
qed

lemma relaxLoop_preserves:
  "relaxLoop es m = Some m' \<Longrightarrow>
   length (faceTable m') = length (faceTable m) \<and>
   freeFaceIndices m' = freeFaceIndices m \<and> (\<forall>f. isFreeFace m' f = isFreeFace m f)"
proof (induction es arbitrary: m)
  case Nil
  then show ?case by simp
next
  case (Cons edge es)
  from Cons.prems obtain m1 where s: "relaxEdge m edge = Some m1" and r: "relaxLoop es m1 = Some m'"
    by (auto split: Option.bind_splits)
  from Cons.IH[OF r] relaxEdge_preserves[OF s] show ?case by simp
qed

lemma insertEdge_canonical:
  "insertEdge es i j = Some es' \<Longrightarrow> canonicalKeys es \<Longrightarrow> canonicalKeys es'"
  by (auto simp: insertEdge_def makeUiKey_def canonicalKeys_def split: Option.bind_splits if_splits)

lemma insertEdge_opt_canonical:
  "(if c then insertEdge es i j else Some es) = Some es' \<Longrightarrow> canonicalKeys es \<Longrightarrow> canonicalKeys es'"
  by (auto split: if_splits dest: insertEdge_canonical)

lemma collectEdges_canonical:
  "collectEdges m i as es = Some es' \<Longrightarrow> canonicalKeys es \<Longrightarrow> canonicalKeys es'"
proof (induction as arbitrary: es)
  case Nil
  then show ?case by simp
next
  case (Cons a as)
  from Cons.prems(1) obtain i1 i2 i3 es1 es2 es3 where
    "(if i \<noteq> i1 then insertEdge es i i1 else Some es) = Some es1"
    "(if i \<noteq> i2 then insertEdge es1 i i2 else Some es1) = Some es2"
    "(if i \<noteq> i3 then insertEdge es2 i i3 else Some es2) = Some es3"
    "collectEdges m i as es3 = Some es'"
    by (auto split: Option.bind_splits)
  with Cons.IH Cons.prems(2) show ?case
    by (blast dest: insertEdge_opt_canonical)
qed

lemma collectPoleEdges_canonical:
  "collectPoleEdges m is es = Some es' \<Longrightarrow> canonicalKeys es \<Longrightarrow> canonicalKeys es'"
proof (induction "is" arbitrary: es)
  case Nil
  then show ?case by simp
next
  case (Cons i "is")
  from Cons.prems(1) obtain es1 where
    a: "(if valence m i > 6 then collectEdges m i (adjacentFaces m i) es else Some es) = Some es1"
    and b: "collectPoleEdges m is es1 = Some es'"
    by (auto split: Option.bind_splits)
  from a Cons.prems(2) have "canonicalKeys es1"
    by (auto split: if_splits dest: collectEdges_canonical)
  with Cons.IH[OF b] show ?case by simp
qed

lemma relaxEdgeSet_canonical: "relaxEdgeSet m faces = Some es \<Longrightarrow> canonicalKeys es"
  by (auto simp: relaxEdgeSet_def dest!: collectPoleEdges_canonical simp: canonicalKeys_def)

lemma isRelaxable_spec:
  "isRelaxable m (e1, e2) vL vR \<longleftrightarrow>
     3 < valence m e1 \<and> 3 < valence m e2 \<and>
     \<bar>int (valence m e1) - 7\<bar> + \<bar>int (valence m e2) - 7\<bar> +
       \<bar>int (valence m vL) - 5\<bar> + \<bar>int (valence m vR) - 5\<bar>
     < \<bar>int (valence m e1) - 6\<bar> + \<bar>int (valence m e2) - 6\<bar> +
       \<bar>int (valence m vL) - 6\<bar> + \<bar>int (valence m vR) - 6\<bar>"
  by (simp add: isRelaxable_def Let_def algebra_simps)

subsection \<open>Edge flips\<close>

lemma relaxEdge_eq:
  "relaxEdge m (e1, e2) =
     (case findAdjacent m e1 e2 of
        None \<Rightarrow> None
      | Some (lf, vL, rf, vR) \<Rightarrow>
          Some (if flipCondition m e1 e2 vL vR then flipped m e1 e2 lf vL rf vR else m))"
proof (cases "findAdjacent m e1 e2")
  case None
  then show ?thesis by (simp add: relaxEdge_def)
next
  case (Some x)
  obtain lf vL rf vR where x: "x = (lf, vL, rf, vR)" by (cases x)
  from Some x have fa: "findAdjacent m e1 e2 = Some (lf, vL, rf, vR)" by simp
  have c: "flipCondition m e1 e2 vL vR = isRelaxable m (e1, e2) vL vR"
    by (simp add: flipCondition_def isRelaxable_spec)
  show ?thesis
    using relaxEdge_flip[OF fa] relaxEdge_noflip[OF fa] fa by (simp add: c flipped_def)
qed

lemma relaxLoop_flipPass: "relaxLoop es m = Some m' \<Longrightarrow> flipPass es m m'"
proof (induction es arbitrary: m)
  case Nil
  then show ?case by (simp add: flipPass.none)
next
  case (Cons edge es)
  obtain e1 e2 where e: "edge = (e1, e2)" by (cases edge)
  from Cons.prems e obtain m1 where s: "relaxEdge m (e1, e2) = Some m1"
    and r: "relaxLoop es m1 = Some m'"
    by (auto split: Option.bind_splits)
  from s obtain lf vL rf vR where fa: "findAdjacent m e1 e2 = Some (lf, vL, rf, vR)"
    and m1: "m1 = (if flipCondition m e1 e2 vL vR then flipped m e1 e2 lf vL rf vR else m)"
    unfolding relaxEdge_eq by (auto split: option.splits)
  from findAdjacent_sound[OF fa] obtain t u where
    "lf \<noteq> rf" "vertexIndices m lf = Some t" "isRotation (e1, e2, vL) t"
    "vertexIndices m rf = Some u" "isRotation (e2, e1, vR) u"
    by blast
  with fa Cons.IH[OF r] show ?case unfolding e m1 by (intro flipPass.edge)
qed

lemma flipPass_relaxLoop: "flipPass es m m' \<Longrightarrow> relaxLoop es m = Some m'"
proof (induction rule: flipPass.induct)
  case (none m)
  show ?case by simp
next
  case (edge m e1 e2 lf vL rf vR t u es m')
  then show ?case by (simp add: relaxEdge_eq)
qed

text \<open>
  C5. A pass of \<^verbatim>\<open>relaxEdges\<close> returns a mesh exactly when the face-set has no uncommitted
  member, the candidate edges are collected, and the mesh is the result of the pass of the
  specification over these edges in the order of the iteration: every edge \<open>(e1, e2)\<close> is
  considered on the mesh that the edges before it have left, \<open>vL\<close> and \<open>vR\<close> are the corners
  opposite to it in the face that holds \<open>(e1, e2)\<close> and in the face that holds \<open>(e2, e1)\<close>,
  the flip is performed if and only if \<open>v(e1) > 3\<close>, \<open>v(e2) > 3\<close> and \<open>post < pre\<close>, and a flip
  replaces these two faces by \<open>(vL, e1, vR)\<close> and \<open>(vR, e2, vL)\<close> and changes nothing else.
  The candidate edges are canonical keys, each of them considered once.
\<close>

theorem relaxEdges_flips_iff_condition:
  assumes "isOrder walk"
  shows "(relaxEdges walk m faces = Some m') =
           (hasUncomitted faces = False \<and>
            (\<exists>es. relaxEdgeSet m faces = Some es \<and> flipPass (walk es) m m')) \<and>
         (\<forall>es. relaxEdgeSet m faces = Some es \<longrightarrow>
            distinct (walk es) \<and> list_all (\<lambda>(a, b). a < b) (walk es))"
proof -
  have 1: "(relaxEdges walk m faces = Some m') =
           (hasUncomitted faces = False \<and>
            (\<exists>es. relaxEdgeSet m faces = Some es \<and> flipPass (walk es) m m'))"
  proof (cases "relaxEdgeSet m faces")
    case None
    then show ?thesis by (simp add: relaxEdges_def)
  next
    case (Some es)
    have "(relaxLoop (walk es) m = Some m') = flipPass (walk es) m m'"
      using relaxLoop_flipPass flipPass_relaxLoop by blast
    with Some show ?thesis by (cases "hasUncomitted faces") (simp_all add: relaxEdges_def)
  qed
  have 2: "distinct (walk es) \<and> list_all (\<lambda>(a, b). a < b) (walk es)"
    if "relaxEdgeSet m faces = Some es" for es
  proof -
    from relaxEdgeSet_canonical[OF that] have d: "distinct es" and c: "list_all (\<lambda>(a, b). a < b) es"
      by (simp_all add: canonicalKeys_def)
    from isOrderD(1,2)[OF assms d] c show ?thesis by (simp add: list_all_iff)
  qed
  from 1 2 show ?thesis by blast
qed

lemma bipyramid_pass:
  "relaxEdgeSet bipyramid \<lparr>indices = [0], uncommitted = []\<rparr> =
     Some [(0, 1), (0, 2), (0, 3), (0, 4), (0, 5), (0, 6), (0, 7)]"
  "relaxEdges (\<lambda>es. es) bipyramid \<lparr>indices = [0], uncommitted = []\<rparr> =
     Some (bipyramid\<lparr>faceTable := (faceTable bipyramid)[6 := Some (2, 0, 7), 0 := Some (7, 1, 2)]\<rparr>)"
  "findAdjacent bipyramid 0 1 = Some (0, 2, 6, 7)"
  "flipCondition bipyramid 0 1 2 7"
  by code_simp+

theorem relaxEdges_flips_iff_condition_witness:
  "isOrder (\<lambda>es :: (nat \<times> nat) list. es) \<and>
   relaxEdgeSet bipyramid \<lparr>indices = [0], uncommitted = []\<rparr> =
     Some [(0, 1), (0, 2), (0, 3), (0, 4), (0, 5), (0, 6), (0, 7)] \<and>
   findAdjacent bipyramid 0 1 = Some (0, 2, 6, 7) \<and> flipCondition bipyramid 0 1 2 7 \<and>
   relaxEdges (\<lambda>es. es) bipyramid \<lparr>indices = [0], uncommitted = []\<rparr> =
     Some (bipyramid\<lparr>faceTable := (faceTable bipyramid)[6 := Some (2, 0, 7), 0 := Some (7, 1, 2)]\<rparr>) \<and>
   flipPass [(0, 1), (0, 2), (0, 3), (0, 4), (0, 5), (0, 6), (0, 7)] bipyramid
     (bipyramid\<lparr>faceTable := (faceTable bipyramid)[6 := Some (2, 0, 7), 0 := Some (7, 1, 2)]\<rparr>)"
  using relaxEdges_flips_iff_condition[OF insertion_isOrder, of bipyramid
      "\<lparr>indices = [0], uncommitted = []\<rparr>"
      "bipyramid\<lparr>faceTable := (faceTable bipyramid)[6 := Some (2, 0, 7), 0 := Some (7, 1, 2)]\<rparr>"]
    bipyramid_pass insertion_isOrder
  by simp

lemma bipyramid_findAdjacent: "findAdjacent bipyramid 0 1 = Some (0, 2, 6, 7)"
  by code_simp

lemma relaxEdges_preserves:
  assumes "relaxEdges walk m faces = Some m'"
  shows "length (faceTable m') = length (faceTable m) \<and>
         freeFaceIndices m' = freeFaceIndices m \<and> (\<forall>f. isFreeFace m' f = isFreeFace m f)"
proof -
  from assms obtain es where "relaxLoop es m = Some m'"
    by (auto simp: relaxEdges_def split: Option.bind_splits)
  then show ?thesis by (rule relaxLoop_preserves)
qed

text \<open>
  C10. A flip of \<^verbatim>\<open>relaxEdges\<close> succeeds whenever \<^verbatim>\<open>findAdjacent\<close> has found the two
  incident faces: both are live, the new left face \<open>(vL, e1, vR)\<close> is stored under the index
  of the old right face, the new right face \<open>(vR, e2, vL)\<close> under the index of the old left
  face, every other face and the free-list stay as they are. Hence a pass of
  \<^verbatim>\<open>relaxEdges\<close> that returns leaves the set of live face indices unchanged, and the
  members of a face-set that were live before are live after.
\<close>

theorem relaxEdges_reuses_face_indices:
  assumes pass: "relaxEdges walk m faces = Some m'"
    and fa: "findAdjacent mk e1 e2 = Some (lf, vL, rf, vR)"
    and rel: "isRelaxable mk (e1, e2) vL vR"
  shows "(\<exists>mk'. relaxEdge mk (e1, e2) = Some mk' \<and>
            isFreeFace mk lf = False \<and> isFreeFace mk rf = False \<and>
            vertexIndices mk' rf = Some (vL, e1, vR) \<and>
            vertexIndices mk' lf = Some (vR, e2, vL) \<and>
            (\<forall>f. f = lf \<or> f = rf \<or> vertexIndices mk' f = vertexIndices mk f) \<and>
            freeFaceIndices mk' = freeFaceIndices mk) \<and>
         (\<forall>f. isFreeFace m' f = isFreeFace m f) \<and>
         length (faceTable m') = length (faceTable m) \<and>
         freeFaceIndices m' = freeFaceIndices m \<and>
         filter (\<lambda>f. isFreeFace m' f) (indices faces) = filter (\<lambda>f. isFreeFace m f) (indices faces)"
proof -
  from findAdjacent_sound[OF fa] obtain t u where ne: "lf \<noteq> rf"
    and t: "vertexIndices mk lf = Some t" and u: "vertexIndices mk rf = Some u" by blast
  from t u have b: "lf < length (faceTable mk)" "rf < length (faceTable mk)"
    "faceTable mk ! lf \<noteq> None" "faceTable mk ! rf \<noteq> None"
    by (simp_all add: vertexIndices_Some_iff)
  let ?mk' = "mk\<lparr>faceTable := (faceTable mk)[rf := Some (vL, e1, vR), lf := Some (vR, e2, vL)]\<rparr>"
  have step: "relaxEdge mk (e1, e2) = Some ?mk'" by (rule relaxEdge_flip[OF fa rel])
  have "isFreeFace mk lf = False" "isFreeFace mk rf = False"
    using b by (simp_all add: isFreeFace_def)
  moreover have "vertexIndices ?mk' rf = Some (vL, e1, vR)" "vertexIndices ?mk' lf = Some (vR, e2, vL)"
    using b ne by (simp_all add: vertexIndices_def)
  moreover have "\<forall>f. f = lf \<or> f = rf \<or> vertexIndices ?mk' f = vertexIndices mk f"
  proof (intro allI)
    fix f
    show "f = lf \<or> f = rf \<or> vertexIndices ?mk' f = vertexIndices mk f"
      by (cases "f = lf"; cases "f = rf") (simp_all add: vertexIndices_def)
  qed
  moreover have "freeFaceIndices ?mk' = freeFaceIndices mk" by simp
  ultimately have first: "\<exists>mk'. relaxEdge mk (e1, e2) = Some mk' \<and>
            isFreeFace mk lf = False \<and> isFreeFace mk rf = False \<and>
            vertexIndices mk' rf = Some (vL, e1, vR) \<and>
            vertexIndices mk' lf = Some (vR, e2, vL) \<and>
            (\<forall>f. f = lf \<or> f = rf \<or> vertexIndices mk' f = vertexIndices mk f) \<and>
            freeFaceIndices mk' = freeFaceIndices mk"
    using step by blast
  from relaxEdges_preserves[OF pass] first show ?thesis by simp
qed

lemma bipyramid_relaxEdges:
  "relaxEdges (\<lambda>es. es) bipyramid \<lparr>indices = [0], uncommitted = []\<rparr> =
     Some (bipyramid\<lparr>faceTable := (faceTable bipyramid)[6 := Some (2, 0, 7), 0 := Some (7, 1, 2)]\<rparr>)"
  by code_simp

lemma bipyramid_isRelaxable: "isRelaxable bipyramid (0, 1) 2 7"
  by code_simp

theorem relaxEdges_reuses_face_indices_witness:
  "relaxEdges (\<lambda>es. es) bipyramid \<lparr>indices = [0], uncommitted = []\<rparr> =
     Some (bipyramid\<lparr>faceTable := (faceTable bipyramid)[6 := Some (2, 0, 7), 0 := Some (7, 1, 2)]\<rparr>) \<and>
   findAdjacent bipyramid 0 1 = Some (0, 2, 6, 7) \<and> isRelaxable bipyramid (0, 1) 2 7 \<and>
   (\<exists>mk'. relaxEdge bipyramid (0, 1) = Some mk' \<and>
      vertexIndices mk' 6 = Some (2, 0, 7) \<and> vertexIndices mk' 0 = Some (7, 1, 2))"
  using relaxEdges_reuses_face_indices[OF bipyramid_relaxEdges bipyramid_findAdjacent bipyramid_isRelaxable]
    bipyramid_relaxEdges bipyramid_findAdjacent bipyramid_isRelaxable
  by blast

subsection \<open>Triangulation\<close>

lemma sourceFan_Nil:
  "(sourceFan val (i1, i2, i3) o12 o13 o23 = []) = (o12 = None \<and> o13 = None \<and> o23 = None)"
  by (cases o12; cases o13; cases o23) simp_all

lemma sourceFan_length: "length (sourceFan val (i1, i2, i3) o12 o13 o23) \<noteq> Suc 0"
  by (cases o12; cases o13; cases o23) simp_all

lemma sourceFan_fanRow: "fanRow val (i1, i2, i3) o12 o13 o23 (sourceFan val (i1, i2, i3) o12 o13 o23)"
  by (cases o12; cases o13; cases o23) (auto simp: samePattern_def)

lemma replacement_eq:
  assumes "vertexIndices m f = Some (i1, i2, i3)" and "i1 \<noteq> i2" and "i1 \<noteq> i3" and "i2 \<noteq> i3"
  shows "replacement m newV f =
           sourceFan (valence m) (i1, i2, i3)
             (newV (min i1 i2, max i1 i2)) (newV (min i1 i3, max i1 i3))
             (newV (min i2 i3, max i2 i3))"
  unfolding replacement_def triangulateFace_step[OF assms] by (simp add: emptyNewFaces_def)

lemma triangulateFace_replacement:
  assumes "vertexIndices m f = Some (i1, i2, i3)" and "i1 \<noteq> i2" and "i1 \<noteq> i3" and "i2 \<noteq> i3"
  shows "triangulateFace m newV newF f =
         Some \<lparr>nfVertexIndices = nfVertexIndices newF @ replacement m newV f,
               facesToDelete =
                 (if replacement m newV f = [] \<or> f \<in> set (facesToDelete newF)
                  then facesToDelete newF else facesToDelete newF @ [f])\<rparr>"
  unfolding replacement_eq[OF assms] sourceFan_Nil triangulateFace_step[OF assms] by simp

lemma triangulateLoop_batch:
  assumes "distinct fs" and "set fs \<inter> set (facesToDelete newF) = {}"
    and "\<forall>f \<in> set fs. \<exists>i1 i2 i3. vertexIndices m f = Some (i1, i2, i3) \<and>
           i1 \<noteq> i2 \<and> i1 \<noteq> i3 \<and> i2 \<noteq> i3"
  shows "triangulateLoop m newV fs newF =
         Some \<lparr>nfVertexIndices = nfVertexIndices newF @ concat (map (replacement m newV) fs),
               facesToDelete =
                 facesToDelete newF @ filter (\<lambda>f. replacement m newV f \<noteq> []) fs\<rparr>"
  using assms
proof (induction fs arbitrary: newF)
  case Nil
  show ?case by simp
next
  case (Cons f fs)
  from Cons.prems(3) obtain i1 i2 i3 where v: "vertexIndices m f = Some (i1, i2, i3)"
    and ne: "i1 \<noteq> i2" "i1 \<noteq> i3" "i2 \<noteq> i3"
    by auto
  let ?nf = "\<lparr>nfVertexIndices = nfVertexIndices newF @ replacement m newV f,
               facesToDelete =
                 (if replacement m newV f = [] then facesToDelete newF
                  else facesToDelete newF @ [f])\<rparr>"
  from Cons.prems(2) have "f \<notin> set (facesToDelete newF)" by auto
  then have s: "triangulateFace m newV newF f = Some ?nf"
    unfolding triangulateFace_replacement[OF v ne] by simp
  have p: "distinct fs" "set fs \<inter> set (facesToDelete ?nf) = {}"
    "\<forall>f \<in> set fs. \<exists>i1 i2 i3. vertexIndices m f = Some (i1, i2, i3) \<and>
           i1 \<noteq> i2 \<and> i1 \<noteq> i3 \<and> i2 \<noteq> i3"
    using Cons.prems by auto
  show ?case
    unfolding triangulateLoop.simps s by (simp add: Cons.IH[OF p])
qed

lemma liveOf_append: "liveOf (xs @ ys) = liveOf xs @ liveOf ys"
  by (simp add: liveOf_def)

lemma liveOf_update:
  assumes "f < length ft"
  shows "mset (liveOf (ft[f := x])) + mset (liveOf [ft ! f]) = mset (liveOf ft) + mset (liveOf [x])"
proof -
  have a: "ft = take f ft @ ft ! f # drop (Suc f) ft"
    using assms by (simp add: id_take_nth_drop)
  have b: "ft[f := x] = take f ft @ x # drop (Suc f) ft"
    using assms by (simp add: upd_conv_take_nth_drop)
  have "mset (liveOf (take f ft @ x # drop (Suc f) ft)) + mset (liveOf [ft ! f]) =
        mset (liveOf (take f ft @ ft ! f # drop (Suc f) ft)) + mset (liveOf [x])"
    by (simp add: liveOf_def)
  with a b show ?thesis by simp
qed

lemma liveOf_single: "liveOf [None] = []" "liveOf [Some t] = [t]"
  by (cases t; simp add: liveOf_def)+

lemma liveFaces_update:
  "liveFaces (m\<lparr>faceTable := ft, freeFaceIndices := fr\<rparr>) = liveOf ft"
  "liveFaces (m\<lparr>faceTable := ft\<rparr>) = liveOf ft"
  by (simp_all add: liveFaces_def)

lemma deleteFacesLoop_live:
  assumes "distinct D" and "\<forall>f \<in> set D. \<not> isFreeFace m f" and "freeFacesOK m"
  shows "\<exists>m'. deleteFacesLoop D m = Some m' \<and> freeFacesOK m' \<and>
     length (faceTable m') = length (faceTable m) \<and>
     (\<forall>f < length (faceTable m). faceTable m' ! f = (if f \<in> set D then None else faceTable m ! f)) \<and>
     mset (liveFaces m') + mset (map (\<lambda>f. the (faceTable m ! f)) D) = mset (liveFaces m)"
  using assms
proof (induction D arbitrary: m)
  case Nil
  then show ?case by simp
next
  case (Cons f D)
  let ?m1 = "m\<lparr>faceTable := (faceTable m)[f := None], freeFaceIndices := f # freeFaceIndices m\<rparr>"
  from Cons.prems have f: "\<not> isFreeFace m f" and nf: "f \<notin> set D" and dD: "distinct D"
    by simp_all
  from f have fl: "f < length (faceTable m)" and fs: "faceTable m ! f \<noteq> None"
    by (simp_all add: isFreeFace_def)
  from f have d: "deleteFace m f = Some ?m1" by (simp add: deleteFace_def)
  have l1: "\<forall>g \<in> set D. \<not> isFreeFace ?m1 g"
  proof
    fix g assume g: "g \<in> set D"
    with nf have "g \<noteq> f" by auto
    moreover from g Cons.prems(2) have "\<not> isFreeFace m g" by simp
    ultimately show "\<not> isFreeFace ?m1 g" by (simp add: isFreeFace_def)
  qed
  have ok1: "freeFacesOK ?m1"
  proof -
    from Cons.prems(3) have "distinct (freeFaceIndices m)"
      and a: "\<forall>g \<in> set (freeFaceIndices m). g < length (faceTable m) \<and> faceTable m ! g = None"
      by (simp_all add: freeFacesOK_def list_all_iff)
    moreover from a fs have "f \<notin> set (freeFaceIndices m)" by auto
    ultimately show ?thesis using fl
      by (auto simp: freeFacesOK_def list_all_iff nth_list_update)
  qed
  from Cons.IH[OF dD l1 ok1] obtain m' where
    r: "deleteFacesLoop D ?m1 = Some m'" and ok: "freeFacesOK m'"
    and l: "length (faceTable m') = length (faceTable ?m1)"
    and n: "\<forall>g < length (faceTable ?m1). faceTable m' ! g =
          (if g \<in> set D then None else faceTable ?m1 ! g)"
    and ms: "mset (liveFaces m') + mset (map (\<lambda>g. the (faceTable ?m1 ! g)) D) = mset (liveFaces ?m1)"
    by blast
  have 1: "deleteFacesLoop (f # D) m = Some m'" using d r by simp
  have 2: "\<forall>g < length (faceTable m). faceTable m' ! g =
          (if g \<in> set (f # D) then None else faceTable m ! g)"
    using n by (auto simp: nth_list_update)
  have e: "map (\<lambda>g. the (faceTable ?m1 ! g)) D = map (\<lambda>g. the (faceTable m ! g)) D"
  proof (rule map_cong[OF refl])
    fix x assume "x \<in> set D"
    with nf have "f \<noteq> x" by auto
    then show "the (faceTable ?m1 ! x) = the (faceTable m ! x)" by simp
  qed
  from fs obtain t where t: "faceTable m ! f = Some t" by auto
  from liveOf_update[OF fl, of None]
  have u: "mset (liveFaces ?m1) + {#t#} = mset (liveFaces m)"
    unfolding t liveOf_single liveFaces_update by (simp add: liveFaces_def)
  have 3: "mset (liveFaces m') + mset (map (\<lambda>g. the (faceTable m ! g)) (f # D)) = mset (liveFaces m)"
    using ms u t unfolding e by (simp add: ac_simps)
  from 1 2 3 ok l show ?case by simp
qed

lemma addFace_live:
  assumes "freeFacesOK m" and "addFace m i1 i2 i3 = (f, m')"
  shows "freeFacesOK m' \<and> mset (liveFaces m') = mset (liveFaces m) + {#(i1, i2, i3)#}"
proof (cases "freeFaceIndices m")
  case Nil
  with assms(2) have "m' = m\<lparr>faceTable := faceTable m @ [Some (i1, i2, i3)]\<rparr>"
    by (simp add: addFace_def)
  with Nil show ?thesis
    by (simp add: freeFacesOK_def liveFaces_def liveOf_append liveOf_single)
next
  case (Cons g free)
  with assms(2) have m': "m' = m\<lparr>faceTable := (faceTable m)[g := Some (i1, i2, i3)],
      freeFaceIndices := free\<rparr>"
    by (auto simp: addFace_def)
  from assms(1) Cons have g: "g < length (faceTable m)" "faceTable m ! g = None"
    and d: "distinct free" "g \<notin> set free"
    and a: "\<forall>h \<in> set free. h < length (faceTable m) \<and> faceTable m ! h = None"
    by (simp_all add: freeFacesOK_def list_all_iff)
  have ok: "freeFacesOK m'"
  proof -
    have "h < length (faceTable m) \<and> (faceTable m)[g := Some (i1, i2, i3)] ! h = None"
      if "h \<in> set free" for h
    proof -
      from that d(2) have "g \<noteq> h" by auto
      with a that show ?thesis by simp
    qed
    with d(1) show ?thesis by (simp add: m' freeFacesOK_def list_all_iff)
  qed
  from liveOf_update[OF g(1), of "Some (i1, i2, i3)"]
  have "mset (liveFaces m') = mset (liveFaces m) + {#(i1, i2, i3)#}"
    unfolding g(2) liveOf_single m' liveFaces_update by (simp add: liveFaces_def)
  with ok show ?thesis by simp
qed

lemma addFacesLoop_live:
  assumes "freeFacesOK m"
  shows "\<exists>m' fs'. addFacesLoop nDel k T m fs = (m', fs') \<and> freeFacesOK m' \<and>
           mset (liveFaces m') = mset (liveFaces m) + mset T"
  using assms
proof (induction T arbitrary: m k fs)
  case Nil
  then show ?case by simp
next
  case (Cons t T)
  obtain i1 i2 i3 where t: "t = (i1, i2, i3)" by (cases t)
  obtain f m1 where a: "addFace m i1 i2 i3 = (f, m1)" by (cases "addFace m i1 i2 i3")
  from addFace_live[OF Cons.prems a] have ok1: "freeFacesOK m1"
    and l1: "mset (liveFaces m1) = mset (liveFaces m) + {#(i1, i2, i3)#}"
    by simp_all
  from Cons.IH[OF ok1, of "Suc k" "if nDel \<le> k then insertFace fs f else fs"] obtain m' fs' where
    "addFacesLoop nDel (Suc k) T m1 (if nDel \<le> k then insertFace fs f else fs) = (m', fs')"
    "freeFacesOK m'" "mset (liveFaces m') = mset (liveFaces m1) + mset T"
    by blast
  with a l1 show ?case by (simp add: t Let_def)
qed

lemma isOrder_mset:
  assumes "isOrder ord" and "distinct xs"
  shows "mset (ord xs) = mset xs"
  using isOrderD(1,2)[OF assms] assms(2) by (simp add: set_eq_iff_mset_eq_distinct)

lemma applyToMesh_live:
  assumes io: "isOrder ord" and d: "distinct (facesToDelete nf)"
    and l: "\<forall>f \<in> set (facesToDelete nf). \<not> isFreeFace m f" and ok: "freeFacesOK m"
    and g: "g < length (faceTable m)" "faceTable m ! g \<noteq> None" "g \<notin> set (facesToDelete nf)"
  shows "\<exists>m' fs'. applyToMesh ord nf m fs =
             Some (length (facesToDelete nf) \<le> length (nfVertexIndices nf), m', fs') \<and>
           mset (liveFaces m') + mset (map (\<lambda>f. the (faceTable m ! f)) (facesToDelete nf)) =
             mset (liveFaces m) + mset (nfVertexIndices nf)"
proof -
  let ?D = "ord (facesToDelete nf)"
  note o = isOrderD[OF io d]
  from l o(2) have l': "\<forall>f \<in> set ?D. \<not> isFreeFace m f" by simp
  from deleteFacesLoop_live[OF o(1) l' ok] obtain m1 where
    r1: "deleteFacesLoop ?D m = Some m1" and ok1: "freeFacesOK m1"
    and l1: "length (faceTable m1) = length (faceTable m)"
    and n1: "\<forall>f < length (faceTable m). faceTable m1 ! f = (if f \<in> set ?D then None else faceTable m ! f)"
    and ms1: "mset (liveFaces m1) + mset (map (\<lambda>f. the (faceTable m ! f)) ?D) = mset (liveFaces m)"
    by blast
  from n1 g o(2) have "faceTable m1 ! g \<noteq> None" by simp
  with g(1) l1 have ne: "\<not> isEmpty m1"
    by (auto simp: isEmpty_def list_all_length)
  from addFacesLoop_live[OF ok1, of "length (facesToDelete nf)" 0 "nfVertexIndices nf" fs]
  obtain m2 fs2 where
    r2: "addFacesLoop (length (facesToDelete nf)) 0 (nfVertexIndices nf) m1 fs = (m2, fs2)"
    and ms2: "mset (liveFaces m2) = mset (liveFaces m1) + mset (nfVertexIndices nf)"
    by blast
  have e: "mset (map (\<lambda>f. the (faceTable m ! f)) ?D) =
           mset (map (\<lambda>f. the (faceTable m ! f)) (facesToDelete nf))"
    using isOrder_mset[OF io d] by (metis mset_map)
  have "applyToMesh ord nf m fs =
          Some (length (facesToDelete nf) \<le> length (nfVertexIndices nf), m2, fs2)"
    using r1 ne r2 by (simp add: applyToMesh_def)
  moreover have "mset (liveFaces m2) + mset (map (\<lambda>f. the (faceTable m ! f)) (facesToDelete nf)) =
             mset (liveFaces m) + mset (nfVertexIndices nf)"
    using ms1 ms2 e by (simp add: ac_simps)
  ultimately show ?thesis by blast
qed

lemma length_concat_filter:
  assumes "\<forall>f \<in> set fs. length (R f) \<noteq> Suc 0"
  shows "length (filter (\<lambda>f. R f \<noteq> []) fs) \<le> length (concat (map R fs))"
  using assms
proof (induction fs)
  case Nil
  show ?case by simp
next
  case (Cons f fs)
  then have "length (filter (\<lambda>f. R f \<noteq> []) fs) \<le> length (concat (map R fs))" by simp
  moreover from Cons.prems have "R f \<noteq> [] \<Longrightarrow> Suc 0 \<le> length (R f)"
    by (cases "R f") simp_all
  ultimately show ?case by auto
qed

text \<open>
  C3. Let the face-set have no uncommitted member and no duplicate, let every member be a
  face with three different corners, let the free-list of faces be sound, and let some face
  of the mesh not be replaced. Then \<^verbatim>\<open>triangulate\<close> returns, and in the mesh it leaves
  every member \<open>f = (i1, i2, i3)\<close> with a midpoint on one of its edges is replaced by the faces
  \<open>replacement m newV f\<close>, while all other faces stay. These faces are the entry of the table
  \<open>sourceFan\<close> for the midpoints that the map holds on the edges of \<open>f\<close>, with the valences of
  the mesh before the call: for two midpoints the face at the apex comes first and the
  remaining quad is split according to a strict comparison of the valences of the two other
  corners (\<open>i2 < i3\<close>, \<open>i1 < i3\<close>, \<open>i1 < i2\<close>), so that the result is a function of the inputs;
  and they are faces that the fan table of the specification allows.
\<close>

theorem triangulate_replaces_faces_by_fans:
  assumes io: "isOrder ord" and nu: "hasUncomitted faces = False"
    and d: "distinct (indices faces)"
    and fs: "\<forall>f \<in> set (indices faces). \<exists>i1 i2 i3. vertexIndices m f = Some (i1, i2, i3) \<and>
           i1 \<noteq> i2 \<and> i1 \<noteq> i3 \<and> i2 \<noteq> i3"
    and ok: "freeFacesOK m"
    and g: "g < length (faceTable m)" "faceTable m ! g \<noteq> None"
      "g \<notin> set (filter (\<lambda>f. replacement m newV f \<noteq> []) (indices faces))"
  shows "\<exists>m' faces'. triangulate ord m newV faces = Some (m', faces') \<and>
     mset (liveFaces m') +
       mset (map (\<lambda>f. the (faceTable m ! f))
              (filter (\<lambda>f. replacement m newV f \<noteq> []) (indices faces))) =
     mset (liveFaces m) + mset (concat (map (replacement m newV) (indices faces))) \<and>
     (\<forall>f \<in> set (indices faces). \<forall>i1 i2 i3. vertexIndices m f = Some (i1, i2, i3) \<longrightarrow>
        replacement m newV f =
          sourceFan (valence m) (i1, i2, i3)
            (newV (min i1 i2, max i1 i2)) (newV (min i1 i3, max i1 i3))
            (newV (min i2 i3, max i2 i3)) \<and>
        fanRow (valence m) (i1, i2, i3)
          (newV (min i1 i2, max i1 i2)) (newV (min i1 i3, max i1 i3))
          (newV (min i2 i3, max i2 i3)) (replacement m newV f))"
proof -
  let ?R = "replacement m newV"
  let ?D = "filter (\<lambda>f. ?R f \<noteq> []) (indices faces)"
  let ?T = "concat (map ?R (indices faces))"
  let ?nf = "\<lparr>nfVertexIndices = ?T, facesToDelete = ?D\<rparr>"
  have rep: "?R f = sourceFan (valence m) (i1, i2, i3)
            (newV (min i1 i2, max i1 i2)) (newV (min i1 i3, max i1 i3))
            (newV (min i2 i3, max i2 i3))"
    if "f \<in> set (indices faces)" "vertexIndices m f = Some (i1, i2, i3)" for f i1 i2 i3
    using fs that by (intro replacement_eq) auto
  have loop: "triangulateLoop m newV (indices faces) emptyNewFaces = Some ?nf"
    using triangulateLoop_batch[OF d _ fs, of emptyNewFaces newV]
    by (simp add: emptyNewFaces_def)
  have live: "\<forall>f \<in> set (facesToDelete ?nf). \<not> isFreeFace m f"
    using fs by (fastforce simp: isFreeFace_def vertexIndices_Some_iff)
  have len: "\<forall>f \<in> set (indices faces). length (?R f) \<noteq> Suc 0"
  proof
    fix f assume f: "f \<in> set (indices faces)"
    with fs obtain i1 i2 i3 where "vertexIndices m f = Some (i1, i2, i3)" by blast
    from rep[OF f this] show "length (?R f) \<noteq> Suc 0" by (simp add: sourceFan_length)
  qed
  have inc: "length (facesToDelete ?nf) \<le> length (nfVertexIndices ?nf)"
    using length_concat_filter[OF len] by simp
  from applyToMesh_live[OF io _ live ok g(1,2), of faces] d g(3) obtain m' fs' where
    ap: "applyToMesh ord ?nf m faces =
           Some (length (facesToDelete ?nf) \<le> length (nfVertexIndices ?nf), m', fs')"
    and ms: "mset (liveFaces m') + mset (map (\<lambda>f. the (faceTable m ! f)) (facesToDelete ?nf)) =
             mset (liveFaces m) + mset (nfVertexIndices ?nf)"
    by auto
  have "triangulate ord m newV faces = Some (m', commit fs')"
    using nu loop ap inc by (simp add: triangulate_def)
  moreover have "fanRow (valence m) (i1, i2, i3)
          (newV (min i1 i2, max i1 i2)) (newV (min i1 i3, max i1 i3))
          (newV (min i2 i3, max i2 i3)) (?R f)"
    if "f \<in> set (indices faces)" "vertexIndices m f = Some (i1, i2, i3)" for f i1 i2 i3
    unfolding rep[OF that] by (rule sourceFan_fanRow)
  ultimately show ?thesis using ms rep by auto
qed

lemma bipyramid_faces0:
  "\<forall>f \<in> set (indices \<lparr>indices = [0], uncommitted = []\<rparr>).
      \<exists>i1 i2 i3. vertexIndices bipyramid f = Some (i1, i2, i3) \<and> i1 \<noteq> i2 \<and> i1 \<noteq> i3 \<and> i2 \<noteq> i3"
  by (simp add: bipyramid_def vertexIndices_def)

lemma bipyramid_triangulate:
  "hasUncomitted \<lparr>indices = [0], uncommitted = []\<rparr> = False"
  "distinct (indices \<lparr>indices = [0], uncommitted = []\<rparr>)"
  "freeFacesOK bipyramid"
  "1 < length (faceTable bipyramid)" "faceTable bipyramid ! 1 \<noteq> None"
  "1 \<notin> set (filter (\<lambda>f. replacement bipyramid [(0, 1) \<mapsto> 9, (0, 2) \<mapsto> 10] f \<noteq> [])
      (indices \<lparr>indices = [0], uncommitted = []\<rparr>))"
  "vertexIndices bipyramid 0 = Some (0, 1, 2)"
  "replacement bipyramid [(0, 1) \<mapsto> 9, (0, 2) \<mapsto> 10] 0 = [(9, 10, 0), (2, 9, 1), (2, 10, 9)]"
  "valence bipyramid 1 = 4" "valence bipyramid 2 = 4"
  "map_option (\<lambda>r. faceTable (fst r))
     (triangulate gnuOrder bipyramid [(0, 1) \<mapsto> 9, (0, 2) \<mapsto> 10]
        \<lparr>indices = [0], uncommitted = []\<rparr>) =
   Some ((faceTable bipyramid)[0 := Some (9, 10, 0)] @ [Some (2, 9, 1), Some (2, 10, 9)])"
  "map (\<lambda>f. the (faceTable bipyramid ! f))
     (filter (\<lambda>f. replacement bipyramid [(0, 1) \<mapsto> 9, (0, 2) \<mapsto> 10] f \<noteq> [])
        (indices \<lparr>indices = [0], uncommitted = []\<rparr>)) = [(0, 1, 2)]"
  "concat (map (replacement bipyramid [(0, 1) \<mapsto> 9, (0, 2) \<mapsto> 10])
     (indices \<lparr>indices = [0], uncommitted = []\<rparr>)) = [(9, 10, 0), (2, 9, 1), (2, 10, 9)]"
  "fanRow (valence bipyramid) (0, 1, 2) (Some 9) (Some 10) None
     [(9, 10, 0), (2, 9, 1), (2, 10, 9)]"
  by code_simp+

theorem triangulate_replaces_faces_by_fans_witness:
  "isOrder gnuOrder \<and> hasUncomitted \<lparr>indices = [0], uncommitted = []\<rparr> = False \<and>
   freeFacesOK bipyramid \<and> vertexIndices bipyramid 0 = Some (0, 1, 2) \<and>
   valence bipyramid 1 = 4 \<and> valence bipyramid 2 = 4 \<and>
   replacement bipyramid [(0, 1) \<mapsto> 9, (0, 2) \<mapsto> 10] 0 = [(9, 10, 0), (2, 9, 1), (2, 10, 9)] \<and>
   fanRow (valence bipyramid) (0, 1, 2) (Some 9) (Some 10) None
     [(9, 10, 0), (2, 9, 1), (2, 10, 9)] \<and>
   map_option (\<lambda>r. faceTable (fst r))
     (triangulate gnuOrder bipyramid [(0, 1) \<mapsto> 9, (0, 2) \<mapsto> 10]
        \<lparr>indices = [0], uncommitted = []\<rparr>) =
   Some ((faceTable bipyramid)[0 := Some (9, 10, 0)] @ [Some (2, 9, 1), Some (2, 10, 9)]) \<and>
   (\<exists>m' faces'. triangulate gnuOrder bipyramid [(0, 1) \<mapsto> 9, (0, 2) \<mapsto> 10]
        \<lparr>indices = [0], uncommitted = []\<rparr> = Some (m', faces') \<and>
      mset (liveFaces m') + mset [(0, 1, 2)] =
      mset (liveFaces bipyramid) + mset [(9, 10, 0), (2, 9, 1), (2, 10, 9)])"
proof -
  note b = bipyramid_triangulate
  from triangulate_replaces_faces_by_fans[OF gnuOrder_isOrder b(1,2) bipyramid_faces0 b(3,4,5,6)]
  obtain m' faces' where
    t: "triangulate gnuOrder bipyramid [(0, 1) \<mapsto> 9, (0, 2) \<mapsto> 10]
          \<lparr>indices = [0], uncommitted = []\<rparr> = Some (m', faces')"
    and ms: "mset (liveFaces m') +
       mset (map (\<lambda>f. the (faceTable bipyramid ! f))
              (filter (\<lambda>f. replacement bipyramid [(0, 1) \<mapsto> 9, (0, 2) \<mapsto> 10] f \<noteq> [])
                (indices \<lparr>indices = [0], uncommitted = []\<rparr>))) =
     mset (liveFaces bipyramid) +
       mset (concat (map (replacement bipyramid [(0, 1) \<mapsto> 9, (0, 2) \<mapsto> 10])
              (indices \<lparr>indices = [0], uncommitted = []\<rparr>)))"
    by blast
  from ms have ms': "mset (liveFaces m') + mset [(0, 1, 2)] =
      mset (liveFaces bipyramid) + mset [(9, 10, 0), (2, 9, 1), (2, 10, 9)]"
    by (simp only: b(12) b(13))
  from t ms' b gnuOrder_isOrder show ?thesis by blast
qed

subsection \<open>The position and normal of a split vertex\<close>

lemma triple_product_cyclic: "dot n1 (cross n2 c) = dot (cross n1 n2) c"
  by (cases n1; cases n2; cases c) (simp add: algebra_simps)

lemma dot_smul_right: "dot a (smul s b) = s * dot a b"
  by (cases a; cases b) (simp add: algebra_simps)

lemma dot_smul_left: "dot (smul s a) b = s * dot a b"
  by (cases a; cases b) (simp add: algebra_simps)

lemma cross_smul_right: "cross a (smul s b) = smul s (cross a b)"
  by (cases a; cases b) (simp add: algebra_simps)

lemma dot_vadd_left: "dot (vadd a b) c = dot a c + dot b c"
  by (cases a; cases b; cases c) (simp add: algebra_simps)

lemma dot_self_zero: "dot v v = 0 \<longleftrightarrow> v = (0, 0, 0)"
proof (cases v)
  case (fields x y z)
  have "x * x + y * y + z * z = 0 \<longleftrightarrow> x = 0 \<and> y = 0 \<and> z = 0"
    by (metis add_nonneg_eq_0_iff mult_eq_0_iff zero_le_square add_nonneg_nonneg)
  then show ?thesis using fields by simp
qed

lemma dot_cross_self [simp]: "dot (cross a b) a = 0" "dot (cross a b) b = 0"
  "dot (cross b a) a = 0" 
  by (cases a; cases b; simp add: algebra_simps)+

lemma cramer_dot:
  "dot (vadd (vadd (smul d1 (cross n2 n3)) (smul d2 (cross n3 n1))) (smul d3 (cross n1 n2))) n1
     = d1 * dot n1 (cross n2 n3)"
  "dot (vadd (vadd (smul d1 (cross n2 n3)) (smul d2 (cross n3 n1))) (smul d3 (cross n1 n2))) n2
     = d2 * dot n1 (cross n2 n3)"
  "dot (vadd (vadd (smul d1 (cross n2 n3)) (smul d2 (cross n3 n1))) (smul d3 (cross n1 n2))) n3
     = d3 * dot n1 (cross n2 n3)"
  by (cases n1; cases n2; cases n3; simp add: algebra_simps)+

lemma cramer_expand:
  "smul (dot n1 (cross n2 n3)) q =
   vadd (vadd (smul (dot q n1) (cross n2 n3)) (smul (dot q n2) (cross n3 n1)))
        (smul (dot q n3) (cross n1 n2))"
  by (cases n1; cases n2; cases n3; cases q) (simp add: algebra_simps)

lemma normalize_cross:
  assumes "cross n1 n2 \<noteq> (0, 0, 0)"
  shows "\<exists>n3. normalize (cross n1 n2) = Some n3 \<and>
               dot n1 (cross n2 n3) = sqrt (dot (cross n1 n2) (cross n1 n2)) \<and>
               dot n1 (cross n2 n3) \<noteq> 0"
proof -
  let ?c = "cross n1 n2"
  let ?l = "sqrt (dot ?c ?c)"
  have pos: "dot ?c ?c > 0"
  proof -
    have "dot ?c ?c \<ge> 0" by (cases ?c) simp
    moreover have "dot ?c ?c \<noteq> 0" using assms by (simp add: dot_self_zero)
    ultimately show ?thesis by simp
  qed
  then have l: "?l \<noteq> 0" "?l > 0" by simp_all
  have n: "normalize ?c = Some (smul (1 / ?l) ?c)"
    using l by (simp add: normalize_def vdiv_def)
  have "dot n1 (cross n2 (smul (1 / ?l) ?c)) = (1 / ?l) * dot ?c ?c"
    by (simp add: cross_smul_right dot_smul_right triple_product_cyclic)
  also have "\<dots> = ?l"
    using pos by (metis l(1) nonzero_divide_eq_eq real_sqrt_mult_self abs_of_pos
        times_divide_eq_left mult_1 less_imp_le real_sqrt_pow2 power2_eq_square)
  finally show ?thesis using n l by auto
qed


lemma smul_cancel: "s \<noteq> 0 \<Longrightarrow> smul s a = smul s b \<Longrightarrow> a = b"
  by (cases a; cases b) simp

lemma smul_smul: "smul s (smul t a) = smul (s * t) a"
  by (cases a) (simp add: algebra_simps)

lemma three_planes:
  assumes det: "dot n1 (cross n2 n3) \<noteq> 0"
  shows "\<exists>p3. vdiv (vadd (vadd (smul d1 (cross n2 n3)) (smul d2 (cross n3 n1)))
                          (smul d3 (cross n1 n2))) (dot n1 (cross n2 n3)) = Some p3 \<and>
              dot p3 n1 = d1 \<and> dot p3 n2 = d2 \<and> dot p3 n3 = d3 \<and>
              (\<forall>q. dot q n1 = d1 \<and> dot q n2 = d2 \<and> dot q n3 = d3 \<longrightarrow> q = p3)"
proof -
  let ?det = "dot n1 (cross n2 n3)"
  let ?v = "vadd (vadd (smul d1 (cross n2 n3)) (smul d2 (cross n3 n1))) (smul d3 (cross n1 n2))"
  let ?p3 = "smul (1 / ?det) ?v"
  have v: "vdiv ?v ?det = Some ?p3" using det by (simp add: vdiv_def)
  have on: "dot ?p3 n1 = d1" "dot ?p3 n2 = d2" "dot ?p3 n3 = d3"
    using det by (simp_all add: dot_smul_left cramer_dot)
  have uniq: "q = ?p3" if q: "dot q n1 = d1 \<and> dot q n2 = d2 \<and> dot q n3 = d3" for q
  proof -
    have "smul ?det q = ?v" using q cramer_expand[of n1 n2 n3 q] by simp
    moreover have "smul ?det ?p3 = ?v" using det by (cases ?v) (simp add: smul_smul)
    ultimately show ?thesis using det smul_cancel by metis
  qed
  from v on uniq show ?thesis by blast
qed

lemma addVertex_new:
  assumes "freeVerticesOK m" and "addVertex m pos nrm = (i3, m')"
  shows "vertex m' i3 = Some pos \<and> vertexNormal m' i3 = Some nrm"
  using assms
  by (cases "freeVertexIndices m"; cases pos; cases nrm)
     (auto simp: addVertex_def freeVerticesOK_def vertex_def vertexNormal_def nth_append)

text \<open>
  C4. Let \<open>p1, n1\<close> and \<open>p2, n2\<close> be the positions and normals of the ends of an edge. If
  the normals are numerically colinear, \<^verbatim>\<open>getSplitPosition\<close> returns the midpoint
  \<open>(p1 + p2) / 2\<close>. Otherwise, when the cross product of the normals is not zero, it returns
  \<open>0.25 p1 + 0.5 p3 + 0.25 p2\<close>, where \<open>p3\<close> is the one point that lies on the tangent plane
  at \<open>p1\<close>, on the tangent plane at \<open>p2\<close> and on the plane through \<open>p1\<close> with normal
  \<open>n3 = normalize (n1 \<times> n2)\<close>. In both cases an edge that \<^verbatim>\<open>split\<close> splits receives a
  new vertex at that position with the normal \<open>normalize (n1 + n2)\<close>, registered under the key
  of the edge. (Reals stand for the floats of the source.)
\<close>

theorem getSplitPosition_spec:
  assumes "vertex m i1 = Some p1" and "vertexNormal m i1 = Some n1"
    and "vertex m i2 = Some p2" and "vertexNormal m i2 = Some n2"
  shows "(colinear n1 n2 \<longrightarrow>
            getSplitPosition colinear m i1 i2 = Some (smul (1 / 2) (vadd p1 p2))) \<and>
         (\<not> colinear n1 n2 \<and> cross n1 n2 \<noteq> (0, 0, 0) \<longrightarrow>
            (\<exists>n3 p3. normalize (cross n1 n2) = Some n3 \<and>
               dot p3 n1 = dot p1 n1 \<and> dot p3 n2 = dot p2 n2 \<and> dot p3 n3 = dot p1 n3 \<and>
               (\<forall>q. dot q n1 = dot p1 n1 \<and> dot q n2 = dot p2 n2 \<and> dot q n3 = dot p1 n3
                     \<longrightarrow> q = p3) \<and>
               getSplitPosition colinear m i1 i2 =
                 Some (vadd (vadd (smul (1 / 4) p1) (smul (1 / 2) p3)) (smul (1 / 4) p2)))) \<and>
         (\<forall>maxLength newV m' newV'.
            freeVerticesOK m \<and> split colinear maxLength m newV i1 i2 = Some (True, m', newV')
            \<longrightarrow> (\<exists>i3 pos nrm. newV' = newV((min i1 i2, max i1 i2) \<mapsto> i3) \<and>
                   getSplitPosition colinear m i1 i2 = Some pos \<and>
                   normalize (vadd n1 n2) = Some nrm \<and>
                   vertex m' i3 = Some pos \<and> vertexNormal m' i3 = Some nrm))"
proof (intro conjI impI allI)
  assume "colinear n1 n2"
  with assms show "getSplitPosition colinear m i1 i2 = Some (smul (1 / 2) (vadd p1 p2))"
    by (simp add: getSplitPosition_def)
next
  assume a: "\<not> colinear n1 n2 \<and> cross n1 n2 \<noteq> (0, 0, 0)"
  from normalize_cross[of n1 n2] a obtain n3 where n3: "normalize (cross n1 n2) = Some n3"
    and det: "dot n1 (cross n2 n3) \<noteq> 0" by blast
  from three_planes[OF det, of "dot p1 n1" "dot p2 n2" "dot p1 n3"] obtain p3 where
    p3: "vdiv (vadd (vadd (smul (dot p1 n1) (cross n2 n3)) (smul (dot p2 n2) (cross n3 n1)))
                          (smul (dot p1 n3) (cross n1 n2))) (dot n1 (cross n2 n3)) = Some p3"
    and on: "dot p3 n1 = dot p1 n1" "dot p3 n2 = dot p2 n2" "dot p3 n3 = dot p1 n3"
    and uniq: "\<forall>q. dot q n1 = dot p1 n1 \<and> dot q n2 = dot p2 n2 \<and> dot q n3 = dot p1 n3 \<longrightarrow> q = p3"
    by blast
  have "getSplitPosition colinear m i1 i2 =
          Some (vadd (vadd (smul (1 / 4) p1) (smul (1 / 2) p3)) (smul (1 / 4) p2))"
    using assms a n3 p3 by (simp add: getSplitPosition_def)
  with n3 on uniq show "\<exists>n3 p3. normalize (cross n1 n2) = Some n3 \<and>
               dot p3 n1 = dot p1 n1 \<and> dot p3 n2 = dot p2 n2 \<and> dot p3 n3 = dot p1 n3 \<and>
               (\<forall>q. dot q n1 = dot p1 n1 \<and> dot q n2 = dot p2 n2 \<and> dot q n3 = dot p1 n3
                     \<longrightarrow> q = p3) \<and>
               getSplitPosition colinear m i1 i2 =
                 Some (vadd (vadd (smul (1 / 4) p1) (smul (1 / 2) p3)) (smul (1 / 4) p2))"
    by blast
next
  fix maxLength newV m' newV'
  assume a: "freeVerticesOK m \<and> split colinear maxLength m newV i1 i2 = Some (True, m', newV')"
  then have ok: "freeVerticesOK m"
    and s: "split colinear maxLength m newV i1 i2 = Some (True, m', newV')" by simp_all
  from s assms obtain nrm pos where nrm: "normalize (vadd n1 n2) = Some nrm"
    and pos: "getSplitPosition colinear m i1 i2 = Some pos"
    and ins: "insertInEdge newV i1 i2 (fst (addVertex m pos nrm)) = Some newV'"
    and m': "m' = snd (addVertex m pos nrm)"
    by (auto simp: split_def split: Option.bind_splits if_splits prod.splits)
  from ins have nv: "newV' = newV((min i1 i2, max i1 i2) \<mapsto> fst (addVertex m pos nrm))"
    by (auto simp: insertInEdge_def hasVertex_def findVertex_def makeUiKey_def
             split: Option.bind_splits)
  from addVertex_new[OF ok, of pos nrm "fst (addVertex m pos nrm)" m'] m'
  have "vertex m' (fst (addVertex m pos nrm)) = Some pos \<and>
        vertexNormal m' (fst (addVertex m pos nrm)) = Some nrm" by simp
  with nv nrm pos show "\<exists>i3 pos nrm. newV' = newV((min i1 i2, max i1 i2) \<mapsto> i3) \<and>
                   getSplitPosition colinear m i1 i2 = Some pos \<and>
                   normalize (vadd n1 n2) = Some nrm \<and>
                   vertex m' i3 = Some pos \<and> vertexNormal m' i3 = Some nrm"
    by blast
qed

lemma octahedron_02:
  "vertex octahedron 0 = Some (0, 0, 1)" "vertexNormal octahedron 0 = Some (0, 0, 1)"
  "vertex octahedron 2 = Some (1, 0, 0)" "vertexNormal octahedron 2 = Some (1, 0, 0)"
  by (simp_all add: octahedron_def vertex_def vertexNormal_def)

theorem getSplitPosition_spec_witness:
  "vertex octahedron 0 = Some (0, 0, 1) \<and> vertexNormal octahedron 0 = Some (0, 0, 1) \<and>
   vertex octahedron 2 = Some (1, 0, 0) \<and> vertexNormal octahedron 2 = Some (1, 0, 0) \<and>
   \<not> colinearUnit (1 / 1000) (0, 0, 1) (1, 0, 0) \<and> cross (0, 0, 1) (1, 0, 0) \<noteq> (0, 0, 0) \<and>
   colinearUnit (1 / 1000) (0, 0, 1) (0, 0, 1) \<and>
   getSplitPosition (colinearUnit (1 / 1000)) octahedron 0 2 = Some (3 / 4, 0, 3 / 4) \<and>
   getSplitPosition (\<lambda>a b. True) octahedron 0 2 = Some (1 / 2, 0, 1 / 2) \<and>
   freeVerticesOK octahedron \<and>
   (\<exists>m' newV'. split (colinearUnit (1 / 1000)) 1 octahedron Map.empty 0 2 = Some (True, m', newV') \<and>
      newV' (0, 2) = Some 6 \<and> vertex m' 6 = Some (3 / 4, 0, 3 / 4) \<and>
      vertexNormal m' 6 = normalize (1, 0, 1))"
proof -
  note th = getSplitPosition_spec[OF octahedron_02]
  have c1: "\<not> colinearUnit (1 / 1000) (0, 0, 1) (1, 0, 0)" by (simp add: colinearUnit_def)
  have c2: "cross (0, 0, 1) (1, 0, 0) \<noteq> (0, 0, 0)" by simp
  have c3: "colinearUnit (1 / 1000) (0, 0, 1) (0, 0, 1)" by (simp add: colinearUnit_def)
  have ok: "freeVerticesOK octahedron" by (simp add: freeVerticesOK_def octahedron_def)
  from th[of "\<lambda>a b. True"] have mid: "getSplitPosition (\<lambda>a b. True) octahedron 0 2 = Some (1 / 2, 0, 1 / 2)"
    by simp
  have pos: "getSplitPosition (colinearUnit (1 / 1000)) octahedron 0 2 = Some (3 / 4, 0, 3 / 4)"
    by (simp add: getSplitPosition_def octahedron_def vertex_def vertexNormal_def
          colinearUnit_def normalize_def vdiv_def)
  have "\<exists>m' newV'. split (colinearUnit (1 / 1000)) 1 octahedron Map.empty 0 2 = Some (True, m', newV')"
    by (simp add: split_def insertInEdge_def hasVertex_def addVertex_def distance2_def
          getSplitPosition_def octahedron_def vertex_def vertexNormal_def colinearUnit_def
          normalize_def vdiv_def)
  then obtain m' newV' where
    s: "split (colinearUnit (1 / 1000)) 1 octahedron Map.empty 0 2 = Some (True, m', newV')" by blast
  from th[of "colinearUnit (1 / 1000)"] ok s obtain i3 pos' nrm where
    "newV' = Map.empty((min 0 2, max 0 2) \<mapsto> i3)"
    "getSplitPosition (colinearUnit (1 / 1000)) octahedron 0 2 = Some pos'"
    "normalize (vadd (0, 0, 1) (1, 0, 0)) = Some nrm"
    "vertex m' i3 = Some pos'" "vertexNormal m' i3 = Some nrm"
    by blast
  moreover have "i3 = 6"
    using s calculation(1)
    by (auto simp: split_def insertInEdge_def hasVertex_def addVertex_def distance2_def
          getSplitPosition_def octahedron_def vertex_def vertexNormal_def colinearUnit_def
          normalize_def vdiv_def fun_eq_iff split: if_splits)
  ultimately have "newV' (0, 2) = Some 6 \<and> vertex m' 6 = Some (3 / 4, 0, 3 / 4) \<and>
      vertexNormal m' 6 = normalize (1, 0, 1)"
    using pos by simp
  with s c1 c2 c3 ok mid pos octahedron_02 show ?thesis by blast
qed

subsection \<open>The faces that the split pass retains\<close>

lemma distance2_sym: "distance2 p q = distance2 q p"
  by (cases p; cases q) (simp add: distance2_def algebra_simps)

lemma stable_refl [simp]: "stable m m"
  by (simp add: stable_def)

lemma stable_trans: "stable m m1 \<Longrightarrow> stable m1 m2 \<Longrightarrow> stable m m2"
  by (simp add: stable_def)

lemma notLong_stable: "notLong ml m k \<Longrightarrow> stable m m1 \<Longrightarrow> notLong ml m1 k"
  unfolding notLong_def stable_def by blast

lemma addVertex_props:
  assumes ok: "freeVerticesOK m" and a: "addVertex m pos nrm = (i3, m1)"
  shows "faceTable m1 = faceTable m" and "freeVerticesOK m1" and "stable m m1"
proof -
  show "faceTable m1 = faceTable m"
    using a by (cases "freeVertexIndices m") (auto simp: addVertex_def)
  show "freeVerticesOK m1"
  proof (cases "freeVertexIndices m")
    case Nil
    with a show ?thesis by (auto simp: addVertex_def freeVerticesOK_def)
  next
    case (Cons i free)
    with a have m1: "m1 = m\<lparr>vertexTable := (vertexTable m)[i := Some (pos, nrm)], freeVertexIndices := free\<rparr>"
      by (auto simp: addVertex_def)
    from ok Cons have "i \<notin> set free" "distinct free"
      "\<forall>j \<in> set free. j < length (vertexTable m) \<and> vertexTable m ! j = None"
      by (auto simp: freeVerticesOK_def list_all_iff)
    moreover from this have "\<forall>j \<in> set free. i \<noteq> j" by blast
    ultimately show ?thesis
      by (simp add: m1 freeVerticesOK_def list_all_iff)
  qed
  show "stable m m1"
  proof (cases "freeVertexIndices m")
    case Nil
    with a show ?thesis by (auto simp: addVertex_def stable_def vertex_def nth_append)
  next
    case (Cons i free)
    with a have m1: "m1 = m\<lparr>vertexTable := (vertexTable m)[i := Some (pos, nrm)], freeVertexIndices := free\<rparr>"
      by (auto simp: addVertex_def)
    from ok Cons have "i < length (vertexTable m)" "vertexTable m ! i = None"
      by (auto simp: freeVerticesOK_def)
    then show ?thesis
      by (auto simp: m1 stable_def vertex_def nth_list_update)
  qed
qed

lemma insertInEdge_eq:
  "i1 \<noteq> i2 \<Longrightarrow> nv (min i1 i2, max i1 i2) = None \<Longrightarrow>
   insertInEdge nv i1 i2 i3 = Some (nv((min i1 i2, max i1 i2) \<mapsto> i3))"
  by (simp add: insertInEdge_def hasVertex_def)

lemma split_props:
  assumes s: "split colinear ml m nv i1 i2 = Some (r, m1, nv1)"
    and ok: "freeVerticesOK m" and ne: "i1 \<noteq> i2" and un: "nv (min i1 i2, max i1 i2) = None"
  shows "faceTable m1 = faceTable m \<and> freeVerticesOK m1 \<and> stable m m1 \<and>
         (\<forall>k. k \<noteq> (min i1 i2, max i1 i2) \<longrightarrow> nv1 k = nv k) \<and>
         r = (nv1 (min i1 i2, max i1 i2) \<noteq> None) \<and>
         (\<not> r \<longrightarrow> notLong ml m1 (min i1 i2, max i1 i2)) \<and>
         (notLong ml m (min i1 i2, max i1 i2) \<longrightarrow> \<not> r)"
proof -
  from s obtain p1 p2 where p: "vertex m i1 = Some p1" "vertex m i2 = Some p2"
    by (auto simp: split_def split: Option.bind_splits)
  have sym: "distance2 p2 p1 = distance2 p1 p2" by (rule distance2_sym)
  have nl: "notLong ml m (min i1 i2, max i1 i2) = (\<not> distance2 p1 p2 > ml * ml)"
    using p ne sym by (cases "i1 < i2") (auto simp: notLong_def min_def max_def)
  show ?thesis
  proof (cases "distance2 p1 p2 > ml * ml")
    case True
    with p have "split colinear ml m nv i1 i2 = do {
        n1 \<leftarrow> vertexNormal m i1;
        n2 \<leftarrow> vertexNormal m i2;
        normal \<leftarrow> normalize (vadd n1 n2);
        pos \<leftarrow> getSplitPosition colinear m i1 i2;
        newV' \<leftarrow> insertInEdge nv i1 i2 (fst (addVertex m pos normal));
        Some (True, snd (addVertex m pos normal), newV') }"
      by (simp add: split_def case_prod_beta)
    with s have "\<exists>nrm pos. insertInEdge nv i1 i2 (fst (addVertex m pos nrm)) = Some nv1 \<and>
        r = True \<and> m1 = snd (addVertex m pos nrm)"
      by (simp add: bind_eq_Some_conv del: split_paired_Ex) blast
    then obtain pos nrm where
      r: "r = True" and a': "m1 = snd (addVertex m pos nrm)"
      and i: "insertInEdge nv i1 i2 (fst (addVertex m pos nrm)) = Some nv1"
      by blast
    from a' have a: "addVertex m pos nrm = (fst (addVertex m pos nrm), m1)" by simp
    from i ne un have nv1: "nv1 = nv((min i1 i2, max i1 i2) \<mapsto> fst (addVertex m pos nrm))"
      by (simp add: insertInEdge_eq)
    from addVertex_props[OF ok a] r nv1 nl True show ?thesis by simp
  next
    case False
    with s p have "r = False" "m1 = m" "nv1 = nv" by (auto simp: split_def)
    with nl False un ok show ?thesis by simp
  qed
qed

lemma splitIfNew_props:
  assumes s: "splitIfNew colinear ml i1 i2 (w, m, nv) = Some (w1, m1, nv1)"
    and ok: "freeVerticesOK m"
  shows "i1 \<noteq> i2 \<and> stepOK ml (min i1 i2, max i1 i2) (w, m, nv) (w1, m1, nv1)"
proof -
  from s have ne: "i1 \<noteq> i2"
    by (auto simp: splitIfNew_def hasVertex_def findVertex_def makeUiKey_def
             split: Option.bind_splits)
  show ?thesis
  proof (cases "nv (min i1 i2, max i1 i2)")
    case None
    with s ne obtain r where sp: "split colinear ml m nv i1 i2 = Some (r, m1, nv1)"
      and w1: "w1 = (r \<or> w)"
      by (auto simp: splitIfNew_def hasVertex_def split: Option.bind_splits)
    from split_props[OF sp ok ne None] w1 None ne show ?thesis
      by (auto simp: stepOK_def)
  next
    case (Some a)
    with s ne have "w1 = w" "m1 = m" "nv1 = nv"
      by (auto simp: splitIfNew_def hasVertex_def)
    with Some ne ok show ?thesis by (simp add: stepOK_def)
  qed
qed


lemma stepOK_chain_unchanged:
  assumes "stepOK ml k0 (w, m, nv) (w1, m1, nv1)" and "k \<noteq> k0"
  shows "nv1 k = nv k"
  using assms by (simp add: stepOK_def del: split_paired_All)

lemma faceKeys_distinct:
  "i1 \<noteq> i2 \<Longrightarrow> i1 \<noteq> i3 \<Longrightarrow> i2 \<noteq> i3 \<Longrightarrow> distinct (faceKeys (i1, i2, i3))"
  by (auto simp: min_def max_def split: if_splits)

lemma three_steps:
  assumes s1: "stepOK ml k1 (False, m, nv) (w1, m1, nv1)"
    and s2: "stepOK ml k2 (w1, m1, nv1) (w2, m2, nv2)"
    and s3: "stepOK ml k3 (w2, m2, nv2) (w3, m3, nv3)"
    and d: "k1 \<noteq> k2" "k1 \<noteq> k3" "k2 \<noteq> k3"
  shows "faceOK ml [k1, k2, k3] m nv (w3, m3, nv3)"
proof -
  from s1 have a1: "faceTable m1 = faceTable m" "freeVerticesOK m1" "stable m m1"
    "\<forall>k. k \<noteq> k1 \<longrightarrow> nv1 k = nv k"
    "nv k1 \<noteq> None \<longrightarrow> nv1 k1 = nv k1 \<and> w1 = False"
    "nv k1 = None \<longrightarrow> w1 = (nv1 k1 \<noteq> None)"
    "nv1 k1 = None \<longrightarrow> notLong ml m1 k1"
    "notLong ml m k1 \<and> nv k1 = None \<longrightarrow> nv1 k1 = None"
    by (simp_all add: stepOK_def del: split_paired_All)
  from s2 have a2: "faceTable m2 = faceTable m1" "freeVerticesOK m2" "stable m1 m2"
    "\<forall>k. k \<noteq> k2 \<longrightarrow> nv2 k = nv1 k"
    "nv1 k2 \<noteq> None \<longrightarrow> nv2 k2 = nv1 k2 \<and> w2 = w1"
    "nv1 k2 = None \<longrightarrow> w2 = (w1 \<or> nv2 k2 \<noteq> None)"
    "nv2 k2 = None \<longrightarrow> notLong ml m2 k2"
    "notLong ml m1 k2 \<and> nv1 k2 = None \<longrightarrow> nv2 k2 = None"
    by (simp_all add: stepOK_def del: split_paired_All)
  from s3 have a3: "faceTable m3 = faceTable m2" "freeVerticesOK m3" "stable m2 m3"
    "\<forall>k. k \<noteq> k3 \<longrightarrow> nv3 k = nv2 k"
    "nv2 k3 \<noteq> None \<longrightarrow> nv3 k3 = nv2 k3 \<and> w3 = w2"
    "nv2 k3 = None \<longrightarrow> w3 = (w2 \<or> nv3 k3 \<noteq> None)"
    "nv3 k3 = None \<longrightarrow> notLong ml m3 k3"
    "notLong ml m2 k3 \<and> nv2 k3 = None \<longrightarrow> nv3 k3 = None"
    by (simp_all add: stepOK_def del: split_paired_All)
  have e1: "nv1 k2 = nv k2" "nv1 k3 = nv k3" using a1(4) d by metis+
  have e2: "nv2 k1 = nv1 k1" "nv2 k3 = nv1 k3" using a2(4) d by metis+
  have e3: "nv3 k1 = nv2 k1" "nv3 k2 = nv2 k2" using a3(4) d by metis+
  have st: "stable m m2" "stable m m3" "stable m1 m3"
    using a1(3) a2(3) a3(3) stable_trans by blast+
  have c1: "faceTable m3 = faceTable m" using a1(1) a2(1) a3(1) by simp
  have c4: "\<forall>k. nv3 k \<noteq> nv k \<longrightarrow> k \<in> set [k1, k2, k3] \<and> nv k = None"
  proof (intro allI impI)
    fix k assume "nv3 k \<noteq> nv k"
    then show "k \<in> set [k1, k2, k3] \<and> nv k = None"
      using a1(4,5) a2(4,5) a3(4,5) e1 e2 e3
      by (cases "k = k1"; cases "k = k2"; cases "k = k3") (auto simp del: split_paired_All)
  qed
  have c5: "\<forall>k \<in> set [k1, k2, k3]. nv3 k = None \<longrightarrow> notLong ml m3 k"
  proof -
    have "nv3 k1 = None \<longrightarrow> notLong ml m3 k1"
      using a1(7) e2(1) e3(1) st(3) notLong_stable by metis
    moreover have "nv3 k2 = None \<longrightarrow> notLong ml m3 k2"
      using a2(7) e3(2) a3(3) notLong_stable by metis
    ultimately show ?thesis using a3(7) by simp
  qed
  have c6: "w3 = (\<exists>k \<in> set [k1, k2, k3]. nv k = None \<and> nv3 k \<noteq> None)"
    using a1(5,6) a2(5,6) a3(5,6) e1 e2 e3 by (auto simp del: split_paired_All)
  have c7: "\<forall>k. notLong ml m k \<and> nv k = None \<longrightarrow> nv3 k = None"
  proof (intro allI impI)
    fix k assume k: "notLong ml m k \<and> nv k = None"
    then have n: "notLong ml m1 k" "notLong ml m2 k"
      using a1(3) st(1) notLong_stable by blast+
    from k a1(4,8) have "nv1 k = None" by (cases "k = k1") (auto simp del: split_paired_All)
    with n a2(4,8) have "nv2 k = None" by (cases "k = k2") (auto simp del: split_paired_All)
    with n a3(4,8) show "nv3 k = None" by (cases "k = k3") (auto simp del: split_paired_All)
  qed
  show ?thesis
    unfolding faceOK_def using c1 a3(2) st(2) c4 c5 c6 c7 by (simp del: split_paired_All)
qed

lemma splitFace_props:
  assumes s: "splitFace colinear ml m nv f = Some st" and ok: "freeVerticesOK m"
  shows "faceOK ml (meshFaceKeys m f) m nv st"
proof -
  from s obtain i1 i2 i3 st1 st2 where t: "vertexIndices m f = Some (i1, i2, i3)"
    and s1: "splitIfNew colinear ml i1 i2 (False, m, nv) = Some st1"
    and s2: "splitIfNew colinear ml i1 i3 st1 = Some st2"
    and s3: "splitIfNew colinear ml i2 i3 st2 = Some st"
    by (auto simp: splitFace_def split: Option.bind_splits)
  obtain w1 m1 nv1 where st1: "st1 = (w1, m1, nv1)" by (cases st1)
  obtain w2 m2 nv2 where st2: "st2 = (w2, m2, nv2)" by (cases st2)
  obtain w3 m3 nv3 where st3: "st = (w3, m3, nv3)" by (cases st)
  from splitIfNew_props[OF s1[unfolded st1] ok]
  have n12: "i1 \<noteq> i2" and k1: "stepOK ml (min i1 i2, max i1 i2) (False, m, nv) (w1, m1, nv1)"
    by simp_all
  from k1 have ok1: "freeVerticesOK m1" by (simp add: stepOK_def)
  from splitIfNew_props[OF s2[unfolded st1 st2] ok1]
  have n13: "i1 \<noteq> i3" and k2: "stepOK ml (min i1 i3, max i1 i3) (w1, m1, nv1) (w2, m2, nv2)"
    by simp_all
  from k2 have ok2: "freeVerticesOK m2" by (simp add: stepOK_def)
  from splitIfNew_props[OF s3[unfolded st2 st3] ok2]
  have n23: "i2 \<noteq> i3" and k3: "stepOK ml (min i2 i3, max i2 i3) (w2, m2, nv2) (w3, m3, nv3)"
    by simp_all
  from faceKeys_distinct[OF n12 n13 n23]
  have d: "(min i1 i2, max i1 i2) \<noteq> (min i1 i3, max i1 i3)"
    "(min i1 i2, max i1 i2) \<noteq> (min i2 i3, max i2 i3)"
    "(min i1 i3, max i1 i3) \<noteq> (min i2 i3, max i2 i3)"
    by auto
  from three_steps[OF k1 k2 k3 d] t st3 show ?thesis
    by (simp add: meshFaceKeys_def)
qed


lemma meshFaceKeys_cong: "faceTable m1 = faceTable m \<Longrightarrow> meshFaceKeys m1 g = meshFaceKeys m g"
  by (simp add: meshFaceKeys_def vertexIndices_def)

lemma splitByFace_iff:
  "splitByFace m nv nv' fs f \<longleftrightarrow>
     (\<exists>k \<in> set (meshFaceKeys m f). nv k = None \<and> nv' k \<noteq> None \<and>
        (\<forall>g \<in> set (takeWhile (\<lambda>g. g \<noteq> f) fs). k \<notin> set (meshFaceKeys m g)))"
  by (simp add: splitByFace_def list_ex_iff list_all_iff)

lemma splitLoop_props:
  assumes "splitLoop colinear ml fs m nv kept = Some (m', nv', kept')"
    and "freeVerticesOK m" and "distinct fs"
  shows "(\<forall>k. nv' k \<noteq> nv k \<longrightarrow> nv k = None) \<and>
         (\<forall>k. notLong ml m k \<and> nv k = None \<longrightarrow> nv' k = None) \<and>
         kept' = kept @ filter (splitByFace m nv nv' fs) fs"
  using assms
proof (induction fs arbitrary: m nv kept)
  case Nil
  then show ?case by simp
next
  case (Cons f fs)
  from Cons.prems(1) obtain w m1 nv1 where
    sf: "splitFace colinear ml m nv f = Some (w, m1, nv1)"
    and rest: "splitLoop colinear ml fs m1 nv1 (if w then kept @ [f] else kept) = Some (m', nv', kept')"
    by (auto split: Option.bind_splits)
  let ?ks = "meshFaceKeys m f"
  from splitFace_props[OF sf Cons.prems(2)]
  have F: "faceTable m1 = faceTable m" "freeVerticesOK m1" "stable m m1"
    "\<forall>k. nv1 k \<noteq> nv k \<longrightarrow> k \<in> set ?ks \<and> nv k = None"
    "\<forall>k \<in> set ?ks. nv1 k = None \<longrightarrow> notLong ml m1 k"
    "w = (\<exists>k \<in> set ?ks. nv k = None \<and> nv1 k \<noteq> None)"
    "\<forall>k. notLong ml m k \<and> nv k = None \<longrightarrow> nv1 k = None"
    by (simp_all add: faceOK_def del: split_paired_All)
  from Cons.prems(3) have d: "f \<notin> set fs" "distinct fs" by simp_all
  from Cons.IH[OF rest F(2) d(2)]
  have IA: "\<forall>k. nv' k \<noteq> nv1 k \<longrightarrow> nv1 k = None"
    and IE: "\<forall>k. notLong ml m1 k \<and> nv1 k = None \<longrightarrow> nv' k = None"
    and IK: "kept' = (if w then kept @ [f] else kept) @ filter (splitByFace m1 nv1 nv' fs) fs"
    by blast+
  have keys: "\<And>g. meshFaceKeys m1 g = meshFaceKeys m g"
    using F(1) by (rule meshFaceKeys_cong)
  have A: "\<forall>k. nv' k \<noteq> nv k \<longrightarrow> nv k = None"
  proof (intro allI impI)
    fix k assume a: "nv' k \<noteq> nv k"
    show "nv k = None"
    proof (cases "nv1 k = nv k")
      case True
      with a have "nv' k \<noteq> nv1 k" by auto
      from IA[rule_format, OF this] True show ?thesis by auto
    next
      case False
      from F(4)[rule_format, OF this] show ?thesis by simp
    qed
  qed
  have E: "\<forall>k. notLong ml m k \<and> nv k = None \<longrightarrow> nv' k = None"
  proof (intro allI impI)
    fix k assume a: "notLong ml m k \<and> nv k = None"
    then have "nv1 k = None" by (rule F(7)[rule_format])
    moreover from a F(3) have "notLong ml m1 k" by (intro notLong_stable[of ml m k m1]) simp_all
    ultimately show "nv' k = None" by (intro IE[rule_format]) simp
  qed
  have alive: "nv1 k \<noteq> None" if a: "k \<in> set ?ks" and b: "nv' k \<noteq> None" for k
  proof
    assume c: "nv1 k = None"
    have "notLong ml m1 k" by (rule F(5)[rule_format, OF a c])
    with c have "nv' k = None" by (intro IE[rule_format]) simp
    with b show False by auto
  qed
  have keep: "nv' k \<noteq> None" if a: "nv1 k \<noteq> None" for k
  proof
    assume c: "nv' k = None"
    with a have "nv' k \<noteq> nv1 k" by auto
    from IA[rule_format, OF this] a show False by auto
  qed
  have bk: "nv k = None" if a: "nv1 k = None" for k
  proof (cases "nv1 k = nv k")
    case True
    with a show ?thesis by simp
  next
    case False
    from F(4)[rule_format, OF this] show ?thesis by simp
  qed
  have same: "nv1 k = nv k" if a: "k \<notin> set ?ks" for k
  proof (rule ccontr)
    assume "nv1 k \<noteq> nv k"
    from F(4)[rule_format, OF this] a show False by simp
  qed
  have Pf: "splitByFace m nv nv' (f # fs) f = w"
  proof -
    have "splitByFace m nv nv' (f # fs) f = (\<exists>k \<in> set ?ks. nv k = None \<and> nv' k \<noteq> None)"
      by (simp add: splitByFace_iff)
    also have "\<dots> = w"
      unfolding F(6)
    proof
      assume "\<exists>k \<in> set ?ks. nv k = None \<and> nv' k \<noteq> None"
      then obtain k where k: "k \<in> set ?ks" "nv k = None" "nv' k \<noteq> None" by blast
      from k(1,3) have "nv1 k \<noteq> None" by (rule alive)
      with k show "\<exists>k \<in> set ?ks. nv k = None \<and> nv1 k \<noteq> None" by blast
    next
      assume "\<exists>k \<in> set ?ks. nv k = None \<and> nv1 k \<noteq> None"
      then obtain k where k: "k \<in> set ?ks" "nv k = None" "nv1 k \<noteq> None" by blast
      from k(3) have "nv' k \<noteq> None" by (rule keep)
      with k show "\<exists>k \<in> set ?ks. nv k = None \<and> nv' k \<noteq> None" by blast
    qed
    finally show ?thesis .
  qed
  have Pg: "splitByFace m nv nv' (f # fs) g = splitByFace m1 nv1 nv' fs g" if g: "g \<in> set fs" for g
  proof -
    from g d have ne: "f \<noteq> g" by auto
    have l: "splitByFace m nv nv' (f # fs) g =
        (\<exists>k \<in> set (meshFaceKeys m g). nv k = None \<and> nv' k \<noteq> None \<and> k \<notin> set ?ks \<and>
           (\<forall>h \<in> set (takeWhile (\<lambda>h. h \<noteq> g) fs). k \<notin> set (meshFaceKeys m h)))"
      using ne by (simp add: splitByFace_iff)
    have r: "splitByFace m1 nv1 nv' fs g =
        (\<exists>k \<in> set (meshFaceKeys m g). nv1 k = None \<and> nv' k \<noteq> None \<and>
           (\<forall>h \<in> set (takeWhile (\<lambda>h. h \<noteq> g) fs). k \<notin> set (meshFaceKeys m h)))"
      by (simp add: splitByFace_iff keys)
    show ?thesis
      unfolding l r
    proof
      assume "\<exists>k \<in> set (meshFaceKeys m g). nv k = None \<and> nv' k \<noteq> None \<and> k \<notin> set ?ks \<and>
           (\<forall>h \<in> set (takeWhile (\<lambda>h. h \<noteq> g) fs). k \<notin> set (meshFaceKeys m h))"
      then obtain k where k: "k \<in> set (meshFaceKeys m g)" "nv k = None" "nv' k \<noteq> None"
        "k \<notin> set ?ks" "\<forall>h \<in> set (takeWhile (\<lambda>h. h \<noteq> g) fs). k \<notin> set (meshFaceKeys m h)"
        by blast
      from k(2) same[OF k(4)] have "nv1 k = None" by simp
      with k show "\<exists>k \<in> set (meshFaceKeys m g). nv1 k = None \<and> nv' k \<noteq> None \<and>
           (\<forall>h \<in> set (takeWhile (\<lambda>h. h \<noteq> g) fs). k \<notin> set (meshFaceKeys m h))"
        by blast
    next
      assume "\<exists>k \<in> set (meshFaceKeys m g). nv1 k = None \<and> nv' k \<noteq> None \<and>
           (\<forall>h \<in> set (takeWhile (\<lambda>h. h \<noteq> g) fs). k \<notin> set (meshFaceKeys m h))"
      then obtain k where k: "k \<in> set (meshFaceKeys m g)" "nv1 k = None" "nv' k \<noteq> None"
        "\<forall>h \<in> set (takeWhile (\<lambda>h. h \<noteq> g) fs). k \<notin> set (meshFaceKeys m h)"
        by blast
      from k(2) have "nv k = None" by (rule bk)
      moreover have "k \<notin> set ?ks" using alive[OF _ k(3)] k(2) by auto
      ultimately show "\<exists>k \<in> set (meshFaceKeys m g). nv k = None \<and> nv' k \<noteq> None \<and> k \<notin> set ?ks \<and>
           (\<forall>h \<in> set (takeWhile (\<lambda>h. h \<noteq> g) fs). k \<notin> set (meshFaceKeys m h))"
        using k by blast
    qed
  qed
  have "filter (splitByFace m nv nv' (f # fs)) (f # fs) =
        (if w then [f] else []) @ filter (splitByFace m1 nv1 nv' fs) fs"
    using Pf Pg by (simp cong: filter_cong)
  with IK have K: "kept' = kept @ filter (splitByFace m nv nv' (f # fs)) (f # fs)"
    by simp
  from A E K show ?case by blast
qed

text \<open>
  C2, as amended. After \<^verbatim>\<open>splitEdges\<close> returns, on a mesh with a sound free-list of
  vertices and a committed set without duplicates, a face is in the filtered committed set if
  and only if at least one of its edges was split while the face itself was visited: the edge
  has no midpoint before the pass, has one after it, and belongs to no face visited earlier
  in the pass. The order of the retained faces is kept.
\<close>

theorem splitEdges_retains_splitting_faces:
  assumes "splitEdges colinear m newV maxLength faces = Some (m', newV', faces')"
    and "freeVerticesOK m" and "distinct (indices faces)"
  shows "indices faces' = filter (splitByFace m newV newV' (indices faces)) (indices faces)"
proof -
  from assms(1) obtain kept where
    l: "splitLoop colinear maxLength (indices faces) m newV [] = Some (m', newV', kept)"
    and f: "faces' = faces\<lparr>indices := kept\<rparr>"
    by (auto simp: splitEdges_def split: Option.bind_splits)
  from splitLoop_props[OF l assms(2,3)] f show ?thesis by simp
qed


lemma bipyramid_splitEdges:
  "splitEdges (colinearUnit (1 / 1000)) bipyramid Map.empty 4 \<lparr>indices = [3, 4], uncommitted = []\<rparr> =
     Some (bipyramid\<lparr>vertexTable := vertexTable bipyramid @ [Some ((- 3 / 2, - 1, 1), (0, 0, 1))]\<rparr>,
           [(0, 5) \<mapsto> 9], \<lparr>indices = [3], uncommitted = []\<rparr>)"
proof -
  have n9: "Suc (Suc (Suc (Suc (Suc (Suc (Suc (Suc (Suc 0)))))))) = 9" by simp
  show ?thesis
    by (simp add: splitEdges_def hasUncomitted_def splitFace_def splitIfNew_def split_def
        hasVertex_def insertInEdge_def addVertex_def getSplitPosition_def distance2_def
        normalize_def vdiv_def colinearUnit_def vertexIndices_def vertex_def vertexNormal_def
        bipyramid_def n9)
qed

text \<open>
  C2, as stated, fails. On the double pyramid, with the bound 4 and the committed faces 3 and
  4, only their common edge \<open>(0, 5)\<close> is longer than the bound. It is split while face 3 is
  visited; face 4 finds it registered, splits nothing and is removed from the set, although
  one of its edges received a midpoint during the pass.
\<close>

theorem splitEdges_drops_face_of_split_edge:
  "\<exists>m' newV' faces'.
     splitEdges (colinearUnit (1 / 1000)) bipyramid Map.empty 4 \<lparr>indices = [3, 4], uncommitted = []\<rparr>
       = Some (m', newV', faces') \<and>
     containsFace \<lparr>indices = [3, 4], uncommitted = []\<rparr> 4 \<and>
     edgeWasSplit bipyramid Map.empty newV' 4 \<and>
     containsFace faces' 4 = False"
proof -
  have "edgeWasSplit bipyramid Map.empty [(0, 5) \<mapsto> 9] 4"
    by (simp add: edgeWasSplit_def meshFaceKeys_def vertexIndices_def bipyramid_def)
  with bipyramid_splitEdges show ?thesis
    by (simp add: containsFace_def)
qed

theorem splitEdges_retains_splitting_faces_witness:
  "freeVerticesOK bipyramid \<and> distinct [3, 4 :: nat] \<and>
   splitEdges (colinearUnit (1 / 1000)) bipyramid Map.empty 4 \<lparr>indices = [3, 4], uncommitted = []\<rparr> =
     Some (bipyramid\<lparr>vertexTable := vertexTable bipyramid @ [Some ((- 3 / 2, - 1, 1), (0, 0, 1))]\<rparr>,
           [(0, 5) \<mapsto> 9], \<lparr>indices = [3], uncommitted = []\<rparr>) \<and>
   filter (splitByFace bipyramid Map.empty [(0, 5) \<mapsto> 9] [3, 4]) [3, 4] = [3]"
proof -
  have ok: "freeVerticesOK bipyramid" by (simp add: freeVerticesOK_def bipyramid_def)
  have d: "distinct (indices \<lparr>indices = [3, 4 :: nat], uncommitted = []\<rparr>)" by simp
  from splitEdges_retains_splitting_faces[OF bipyramid_splitEdges ok d] ok bipyramid_splitEdges
  show ?thesis by simp
qed

subsection \<open>The collapse driver\<close>

lemma collapseEdge_unfold:
  "collapseEdge ord m i1 i2 faces = do {
     assertion (valence m i1 \<ge> 3);
     assertion (valence m i2 \<ge> 3);
     valid \<leftarrow> isValidEdge m i1 i2;
     assertion valid;
     p1 \<leftarrow> vertex m i1;
     p2 \<leftarrow> vertex m i2;
     if valence m i1 = 3 then collapseValence3 m i1 i2 (between p1 p2) faces
     else if valence m i2 = 3 then collapseValence3 m i2 i1 (between p1 p2) faces
     else collapseGeneral ord m i1 i2 (between p1 p2) faces
   }"
  unfolding collapseEdge_def collapseValence3_def collapseGeneral_def collapsePerform_def Let_def
  by (rule refl)


lemma deleteValence3Vertex_rejected:
  assumes "deleteValence3Vertex m i fs = Some (False, m', fs')"
  shows "m' = m \<and> fs' = fs"
  using assms
  by (auto simp: deleteValence3Vertex_def Let_def split: Option.bind_splits if_splits prod.splits)

lemma collapseValence3_rejected:
  assumes "collapseValence3 m i j newPos fs = Some (False, m', fs')"
  shows "m' = m \<and> fs' = fs"
proof -
  from assms obtain r m1 f1 where d: "deleteValence3Vertex m i fs = Some (r, m1, f1)"
    by (auto simp: collapseValence3_def split: Option.bind_splits)
  with assms have "r = False" "m' = m1" "fs' = f1"
    by (auto simp: collapseValence3_def split: Option.bind_splits if_splits)
  with d deleteValence3Vertex_rejected show ?thesis by blast
qed

lemma collapsePerform_True:
  "collapsePerform ord m i1 i2 newPos fs = Some (r, m', fs') \<Longrightarrow> r"
  by (auto simp: collapsePerform_def Let_def split: Option.bind_splits prod.splits)

lemma collapseGeneral_rejected:
  assumes "collapseGeneral ord m i1 i2 newPos fs = Some (False, m', fs')"
  shows "m' = m \<and> fs' = fs"
proof -
  from assms obtain lf lv rf rv where fa: "findAdjacent m i1 i2 = Some (lf, lv, rf, rv)"
    by (auto simp: collapseGeneral_def split: Option.bind_splits)
  show ?thesis
  proof (cases "lv = rv \<or> valence m lv = 3 \<or> valence m rv = 3")
    case True
    with assms fa show ?thesis
      by (auto simp: collapseGeneral_def split: Option.bind_splits if_splits)
  next
    case False
    with assms fa obtain n where n: "numCommonAdjacentVertices m i1 i2 = Some n"
      by (auto simp: collapseGeneral_def split: Option.bind_splits if_splits)
    show ?thesis
    proof (cases "n = 2")
      case True
      with assms fa False n have "collapsePerform ord m i1 i2 newPos fs = Some (False, m', fs')"
        by (auto simp: collapseGeneral_def split: Option.bind_splits if_splits)
      with collapsePerform_True show ?thesis by blast
    next
      case n2: False
      with assms fa False n show ?thesis
        by (auto simp: collapseGeneral_def split: Option.bind_splits if_splits)
    qed
  qed
qed

lemma collapseEdge_rejected:
  assumes "collapseEdge ord m i1 i2 fs = Some (False, m', fs')"
  shows "m' = m \<and> fs' = fs"
proof -
  from assms obtain p1 p2 where
    "(if valence m i1 = 3 then collapseValence3 m i1 i2 (between p1 p2) fs
      else if valence m i2 = 3 then collapseValence3 m i2 i1 (between p1 p2) fs
      else collapseGeneral ord m i1 i2 (between p1 p2) fs) = Some (False, m', fs')"
    unfolding collapseEdge_unfold by (auto split: Option.bind_splits)
  then show ?thesis
    using collapseValence3_rejected collapseGeneral_rejected by (auto split: if_splits)
qed

lemma collapseEdge_attempt:
  "(case collapseEdge ord m a b current of None \<Rightarrow> None
    | Some (r, m', copy) \<Rightarrow> Some (m', r \<or> collapsed)) = attemptCollapse ord m current collapsed a b"
proof (cases "collapseEdge ord m a b current")
  case None
  then show ?thesis by (simp add: attemptCollapse_def)
next
  case (Some x)
  obtain r m' copy where x: "x = (r, m', copy)" by (cases x)
  show ?thesis
  proof (cases r)
    case True
    with Some x show ?thesis by (simp add: attemptCollapse_def)
  next
    case False
    with Some x collapseEdge_rejected[of ord m a b current m' copy] show ?thesis
      by (simp add: attemptCollapse_def)
  qed
qed

lemma bind_collapseEdge:
  "(collapseEdge ord m a b current \<bind> (\<lambda>(r, m', copy). Some (m', r \<or> collapsed))) =
   (case collapseEdge ord m a b current of None \<Rightarrow> None
    | Some (r, m', copy) \<Rightarrow> Some (m', r \<or> collapsed))"
  by (cases "collapseEdge ord m a b current") auto

text \<open>
  C7, as amended. For a visited face \<open>(i1, i2, i3)\<close> that is not free, the driver attempts
  \<^verbatim>\<open>collapseEdge\<close> on the first of the edges \<open>(i1, i2)\<close>, \<open>(i1, i3)\<close>, \<open>(i2, i3)\<close>, in
  that order, that satisfies the predicate, and on no other edge of the face: the collapse is
  performed if that call succeeds; if the call is rejected, the mesh stays as it was and no
  later edge of the face is attempted in this visit.
\<close>

theorem visitFace_first_edge_satisfying_pred:
  assumes "isFreeFace m i = False" and "vertexIndices m i = Some (i1, i2, i3)"
    and "doCollapse m i1 i2 = Some c12" and "doCollapse m i1 i3 = Some c13"
    and "doCollapse m i2 i3 = Some c23"
  shows "visitFace ord doCollapse current i (m, collapsed) =
           (if c12 then attemptCollapse ord m current collapsed i1 i2
            else if c13 then attemptCollapse ord m current collapsed i1 i3
            else if c23 then attemptCollapse ord m current collapsed i2 i3
            else Some (m, collapsed))"
  using assms
  by (simp add: visitFace_def bind_collapseEdge collapseEdge_attempt)

lemma capped_face0: "isFreeFace capped 0 = False" "vertexIndices capped 0 = Some (2, 3, 0)"
  by code_simp+

lemma capped_reject:
  "collapseEdge gnuOrder capped 2 3 \<lparr>indices = [0], uncommitted = []\<rparr> =
     Some (False, capped, \<lparr>indices = [0], uncommitted = []\<rparr>)"
  by code_simp

lemma capped_accept:
  "map_option fst (collapseEdge gnuOrder capped 2 0 \<lparr>indices = [0], uncommitted = []\<rparr>) = Some True"
  by code_simp

lemma capped_visit:
  "visitFace gnuOrder (\<lambda>m a b. Some True) \<lparr>indices = [0], uncommitted = []\<rparr> 0 (capped, False) =
     Some (capped, False)"
  by code_simp

text \<open>
  C7, as stated, fails. On the octahedron with a divided face, with the predicate that holds
  for every edge, the visit of face 0 with corners \<open>(2, 3, 0)\<close> attempts the edge \<open>(2, 3)\<close>,
  which is rejected because the vertex opposite to it has valence 3. The edge \<open>(2, 0)\<close> also
  satisfies the predicate and its collapse would succeed, but the visit ends with the mesh
  unchanged.
\<close>

theorem visitFace_skips_later_edges:
  "isFreeFace capped 0 = False \<and> vertexIndices capped 0 = Some (2, 3, 0) \<and>
   collapseEdge gnuOrder capped 2 3 \<lparr>indices = [0], uncommitted = []\<rparr> =
     Some (False, capped, \<lparr>indices = [0], uncommitted = []\<rparr>) \<and>
   map_option fst (collapseEdge gnuOrder capped 2 0 \<lparr>indices = [0], uncommitted = []\<rparr>) = Some True \<and>
   visitFace gnuOrder (\<lambda>m a b. Some True) \<lparr>indices = [0], uncommitted = []\<rparr> 0 (capped, False) =
     Some (capped, False)"
  using capped_face0 capped_reject capped_accept capped_visit by simp

theorem visitFace_first_edge_satisfying_pred_witness:
  "isFreeFace capped 0 = False \<and> vertexIndices capped 0 = Some (2, 3, 0) \<and>
   attemptCollapse gnuOrder capped \<lparr>indices = [0], uncommitted = []\<rparr> False 2 3 = Some (capped, False) \<and>
   visitFace gnuOrder (\<lambda>m a b. Some True) \<lparr>indices = [0], uncommitted = []\<rparr> 0 (capped, False) =
     Some (capped, False)"
proof -
  have a: "attemptCollapse gnuOrder capped \<lparr>indices = [0], uncommitted = []\<rparr> False 2 3 = Some (capped, False)"
    by (simp add: attemptCollapse_def capped_reject)
  from visitFace_first_edge_satisfying_pred[OF capped_face0,
      of "\<lambda>m a b. Some True" True True True gnuOrder "\<lparr>indices = [0], uncommitted = []\<rparr>" False]
    a capped_face0
  show ?thesis by simp
qed

lemma collapseLoop_once:
  "collapseLoop ord doCollapse m faces current collapsed =
     (case scanFaces ord doCollapse (commit current) (indices (commit current)) (m, collapsed) of
        None \<Rightarrow> None
      | Some (m', collapsed') \<Rightarrow> Some (m', insertFaces faces (uncommitted current), collapsed'))"
  by (simp add: Let_def commit_def split: option.splits)


lemma capped_collapse:
  "collapseEdge gnuOrder capped 6 1 \<lparr>indices = [4], uncommitted = []\<rparr> =
     Some (True, cappedOnce, \<lparr>indices = [4], uncommitted = [6]\<rparr>)"
  "collapseAllEdges gnuOrder capped \<lparr>indices = [4], uncommitted = []\<rparr> =
     Some (True, cappedOnce, \<lparr>indices = [4], uncommitted = []\<rparr>)"
  "vertexIndices capped 4 = Some (6, 1, 3)"
  "vertexIndices cappedOnce 6 = Some (1, 3, 2)"
  "map_option snd (visitFace gnuOrder (\<lambda>m a b. Some True) \<lparr>indices = [4], uncommitted = []\<rparr> 6
     (cappedOnce, False)) = Some True"
  by code_simp+

text \<open>
  C1. The loop of \<^verbatim>\<open>collapseEdges\<close> runs its body exactly once, whatever the scan does:
  \<^verbatim>\<open>collapseEdge\<close> inserts the face it creates into its own copy of the scan set, so the
  staging buffer of the scan set is empty after every scan. On the mesh \<open>capped\<close> with the
  face-set \<open>{4}\<close> and the predicate that holds for every edge, the scan collapses the edge
  \<open>(6, 1)\<close> by removing the vertex 6 of valence 3: the copy receives the new face 6 in its
  staging buffer, the scan set does not, and the call returns after this one scan, although a
  scan of the new face \<open>(1, 3, 2)\<close> would collapse a further edge.
\<close>

theorem collapseEdges_new_faces_not_rescanned:
  "collapseLoop ord doCollapse m faces current collapsed =
     (case scanFaces ord doCollapse (commit current) (indices (commit current)) (m, collapsed) of
        None \<Rightarrow> None
      | Some (m', collapsed') \<Rightarrow> Some (m', insertFaces faces (uncommitted current), collapsed')) \<and>
   vertexIndices capped 4 = Some (6, 1, 3) \<and>
   collapseEdge gnuOrder capped 6 1 \<lparr>indices = [4], uncommitted = []\<rparr> =
     Some (True, cappedOnce, \<lparr>indices = [4], uncommitted = [6]\<rparr>) \<and>
   collapseAllEdges gnuOrder capped \<lparr>indices = [4], uncommitted = []\<rparr> =
     Some (True, cappedOnce, \<lparr>indices = [4], uncommitted = []\<rparr>) \<and>
   vertexIndices cappedOnce 6 = Some (1, 3, 2) \<and>
   map_option snd (visitFace gnuOrder (\<lambda>m a b. Some True) \<lparr>indices = [4], uncommitted = []\<rparr> 6
     (cappedOnce, False)) = Some True"
  using collapseLoop_once[of ord doCollapse m faces current collapsed] capped_collapse
  by simp

subsection \<open>The collapse of an edge\<close>





































subsection \<open>A call that collapses nothing\<close>

lemma sameShape_refl: "sameShape m m"
  by (simp add: sameShape_def)

lemma sameShape_trans: "sameShape m m1 \<Longrightarrow> sameShape m1 m2 \<Longrightarrow> sameShape m m2"
  by (simp add: sameShape_def)

lemma sameShape_length:
  "sameShape m m' \<Longrightarrow> length (vertexTable m') = length (vertexTable m)"
  unfolding sameShape_def by (metis length_map)

lemma sameShape_nth:
  assumes "sameShape m m'" and "i < length (vertexTable m)"
  shows "map_option fst (vertexTable m' ! i) = map_option fst (vertexTable m ! i)"
proof -
  have "map (map_option fst) (vertexTable m') ! i = map (map_option fst) (vertexTable m) ! i"
    using assms(1) by (simp add: sameShape_def)
  then show ?thesis using assms sameShape_length[OF assms(1)] by simp
qed

lemma sameShape_faces:
  assumes "sameShape m m'"
  shows "isFreeFace m' = isFreeFace m" and "vertexIndices m' = vertexIndices m"
    and "adjacentFaces m' = adjacentFaces m" and "valence m' = valence m"
    and "forEachFace m' = forEachFace m" and "faceTable m' = faceTable m"
proof -
  from assms show ft: "faceTable m' = faceTable m" by (simp add: sameShape_def)
  show "isFreeFace m' = isFreeFace m" by (rule ext) (simp add: isFreeFace_def ft)
  then show "forEachFace m' = forEachFace m" by (simp add: forEachFace_def ft)
  show "vertexIndices m' = vertexIndices m" by (rule ext) (simp add: vertexIndices_def ft)
  show a: "adjacentFaces m' = adjacentFaces m" by (rule ext) (simp add: adjacentFaces_def ft)
  show "valence m' = valence m" by (rule ext) (simp add: valence_def a)
qed

lemma sameShape_vertices:
  assumes "sameShape m m'"
  shows "isFreeVertex m' = isFreeVertex m" and "vertex m' = vertex m"
proof -
  note l = sameShape_length[OF assms]
  show "vertex m' = vertex m"
  proof (rule ext)
    fix i show "vertex m' i = vertex m i"
      using sameShape_nth[OF assms, of i] l by (simp add: vertex_def)
  qed
  show "isFreeVertex m' = isFreeVertex m"
  proof (rule ext)
    fix i show "isFreeVertex m' i = isFreeVertex m i"
    proof (cases "i < length (vertexTable m)")
      case True
      from sameShape_nth[OF assms True]
      have "(vertexTable m' ! i = None) = (vertexTable m ! i = None)"
        by (cases "vertexTable m' ! i"; cases "vertexTable m ! i") auto
      with True l show ?thesis by (simp add: isFreeVertex_def)
    next
      case False
      with l show ?thesis by (simp add: isFreeVertex_def)
    qed
  qed
qed

lemma sameShape_findAdjacentLoop:
  assumes s: "sameShape m m'"
  shows "findAdjacentLoop m' e1 e2 as st = findAdjacentLoop m e1 e2 as st"
  by (induction as arbitrary: st) (simp_all add: sameShape_faces(2)[OF s])

lemma sameShape_findAdjacent:
  assumes s: "sameShape m m'"
  shows "findAdjacent m' e1 e2 = findAdjacent m e1 e2"
  by (simp add: findAdjacent_def sameShape_findAdjacentLoop[OF s] sameShape_faces(3)[OF s])

lemma sameShape_getSuccessor:
  assumes s: "sameShape m m'"
  shows "getSuccessor m' = getSuccessor m"
  by (rule ext, rule ext) (simp add: getSuccessor_def sameShape_faces(2)[OF s])

lemma sameShape_countSuccessors:
  assumes s: "sameShape m m'"
  shows "countSuccessors m' i2 s1 as n = countSuccessors m i2 s1 as n"
  by (induction as arbitrary: n) (simp_all add: sameShape_getSuccessor[OF s])

lemma sameShape_countCommon:
  assumes s: "sameShape m m'"
  shows "countCommon m' i1 i2 as n = countCommon m i1 i2 as n"
proof (induction as arbitrary: n)
  case Nil
  show ?case by simp
next
  case (Cons a as)
  have c: "countCommon m' i1 i2 as = countCommon m i1 i2 as"
    by (rule ext) (rule Cons.IH)
  have cs: "countSuccessors m' i2 = countSuccessors m i2"
    by (rule ext, rule ext, rule ext) (rule sameShape_countSuccessors[OF s])
  show ?case
    by (simp only: countCommon.simps c cs sameShape_getSuccessor[OF s] sameShape_faces(3)[OF s])
qed

lemma sameShape_numCommon:
  assumes s: "sameShape m m'"
  shows "numCommonAdjacentVertices m' i1 i2 = numCommonAdjacentVertices m i1 i2"
  by (simp add: numCommonAdjacentVertices_def sameShape_countCommon[OF s]
      sameShape_faces(3)[OF s])

lemma sameShape_isValidEdge:
  assumes s: "sameShape m m'"
  shows "isValidEdge m' i1 i2 = isValidEdge m i1 i2"
  by (simp add: isValidEdge_def sameShape_faces(3,6)[OF s] sameShape_vertices(1)[OF s])

lemma sameShape_isCollapsable:
  assumes s: "sameShape m m'"
  shows "isCollapsable x m' i1 i2 = isCollapsable x m i1 i2"
  by (simp add: isCollapsable_def sameShape_vertices[OF s])

lemma case_prod_bind:
  "Option.bind (case_prod f p) g = (case p of (a, b) \<Rightarrow> Option.bind (f a b) g)"
  by (cases p) simp

lemma deleteValence3Vertex_unfold:
  "deleteValence3Vertex m i faces =
     d3Reads m i \<bind> (\<lambda>(newI1, newI2, newI3).
       d3Tail m i faces (adjacentFaces m i ! 0) (adjacentFaces m i ! 1) (adjacentFaces m i ! 2)
         newI1 newI2 newI3)"
  unfolding deleteValence3Vertex_def d3Tail_def d3Reads_def Let_def
  by (simp only: Option.bind_assoc case_prod_bind Option.bind_lunit case_prod_conv)

lemma d3Tail_rejected_shape:
  assumes "d3Tail m i fs a1 a2 a3 n1 n2 n3 = Some (False, m1, fs1)" and s: "sameShape m m'"
  shows "m1 = m \<and> fs1 = fs \<and> d3Tail m' i fs a1 a2 a3 n1 n2 n3 = Some (False, m', fs)"
proof (cases "valence m n1 > 3 \<and> valence m n2 > 3 \<and> valence m n3 > 3")
  case True
  with assms(1) show ?thesis
    by (auto simp: d3Tail_def Let_def split: Option.bind_splits prod.splits)
next
  case False
  with assms(1) sameShape_faces(4)[OF s] show ?thesis
    by (auto simp: d3Tail_def)
qed

lemma sameShape_d3Reads:
  assumes s: "sameShape m m'"
  shows "d3Reads m' i = d3Reads m i"
  by (simp add: d3Reads_def sameShape_faces(2,3,4)[OF s] sameShape_vertices(1)[OF s])

lemma deleteValence3Vertex_rejected_shape:
  assumes h: "deleteValence3Vertex m i fs = Some (False, m1, fs1)" and s: "sameShape m m'"
  shows "m1 = m \<and> fs1 = fs \<and> deleteValence3Vertex m' i fs = Some (False, m', fs)"
proof (cases "d3Reads m i")
  case None
  with h show ?thesis by (simp add: deleteValence3Vertex_unfold)
next
  case (Some x)
  obtain n1 n2 n3 where x: "x = (n1, n2, n3)" by (cases x)
  from h Some x have t: "d3Tail m i fs (adjacentFaces m i ! 0) (adjacentFaces m i ! 1)
      (adjacentFaces m i ! 2) n1 n2 n3 = Some (False, m1, fs1)"
    by (simp add: deleteValence3Vertex_unfold)
  from d3Tail_rejected_shape[OF t s] Some x show ?thesis
    by (simp add: deleteValence3Vertex_unfold[of m'] sameShape_d3Reads[OF s]
        sameShape_faces(3)[OF s])
qed

lemma collapseValence3_rejected_shape:
  assumes h: "collapseValence3 m i j newPos fs = Some (False, m1, fs1)" and s: "sameShape m m'"
  shows "m1 = m \<and> fs1 = fs \<and> collapseValence3 m' i j newPos fs = Some (False, m', fs)"
proof -
  from h obtain r m2 f2 where d: "deleteValence3Vertex m i fs = Some (r, m2, f2)"
    by (auto simp: collapseValence3_def split: Option.bind_splits)
  with h have "r = False" "m1 = m2" "fs1 = f2"
    by (auto simp: collapseValence3_def split: Option.bind_splits if_splits)
  with d deleteValence3Vertex_rejected_shape[OF _ s, of i fs m1 fs1] show ?thesis
    by (simp add: collapseValence3_def)
qed

lemma collapseGeneral_rejected_shape:
  assumes h: "collapseGeneral ord m i1 i2 newPos fs = Some (False, m1, fs1)" and s: "sameShape m m'"
  shows "m1 = m \<and> fs1 = fs \<and> collapseGeneral ord m' i1 i2 newPos fs = Some (False, m', fs)"
proof -
  note F = sameShape_findAdjacent[OF s] sameShape_faces(4)[OF s] sameShape_numCommon[OF s]
  from h obtain lf lv rf rv where fa: "findAdjacent m i1 i2 = Some (lf, lv, rf, rv)"
    by (auto simp: collapseGeneral_def split: Option.bind_splits)
  show ?thesis
  proof (cases "lv = rv \<or> valence m lv = 3 \<or> valence m rv = 3")
    case True
    with h fa show ?thesis
      by (auto simp: collapseGeneral_def F split: Option.bind_splits if_splits)
  next
    case False
    with h fa obtain n where n: "numCommonAdjacentVertices m i1 i2 = Some n"
      by (auto simp: collapseGeneral_def split: Option.bind_splits if_splits)
    show ?thesis
    proof (cases "n = 2")
      case True
      with h fa False n have "collapsePerform ord m i1 i2 newPos fs = Some (False, m1, fs1)"
        by (auto simp: collapseGeneral_def split: Option.bind_splits if_splits)
      with collapsePerform_True show ?thesis by blast
    next
      case n2: False
      with h fa False n show ?thesis
        by (auto simp: collapseGeneral_def F split: Option.bind_splits if_splits)
    qed
  qed
qed

lemma collapseEdge_rejected_shape:
  assumes h: "collapseEdge ord m i1 i2 fs = Some (False, m1, fs1)" and s: "sameShape m m'"
  shows "m1 = m \<and> fs1 = fs \<and> collapseEdge ord m' i1 i2 fs = Some (False, m', fs)"
proof -
  note F = sameShape_faces(4)[OF s] sameShape_isValidEdge[OF s] sameShape_vertices(2)[OF s]
  from h obtain p1 p2 where
    pre: "valence m i1 \<ge> 3" "valence m i2 \<ge> 3" "isValidEdge m i1 i2 = Some True"
      "vertex m i1 = Some p1" "vertex m i2 = Some p2" and
    r: "(if valence m i1 = 3 then collapseValence3 m i1 i2 (between p1 p2) fs
      else if valence m i2 = 3 then collapseValence3 m i2 i1 (between p1 p2) fs
      else collapseGeneral ord m i1 i2 (between p1 p2) fs) = Some (False, m1, fs1)"
    unfolding collapseEdge_unfold by (auto split: Option.bind_splits)
  have e: "collapseEdge ord m' i1 i2 fs =
     (if valence m i1 = 3 then collapseValence3 m' i1 i2 (between p1 p2) fs
      else if valence m i2 = 3 then collapseValence3 m' i2 i1 (between p1 p2) fs
      else collapseGeneral ord m' i1 i2 (between p1 p2) fs)"
    unfolding collapseEdge_unfold[of ord m'] F using pre by simp
  from r show ?thesis unfolding e
    using collapseValence3_rejected_shape[OF _ s] collapseGeneral_rejected_shape[OF _ s]
    by (auto split: if_splits)
qed

lemma attemptCollapse_mono:
  "attemptCollapse ord m cur c a b = Some (m1, c1) \<Longrightarrow> c \<Longrightarrow> c1"
  by (auto simp: attemptCollapse_def split: option.splits)

lemma attemptCollapse_shape:
  assumes h: "attemptCollapse ord m cur c a b = Some (m1, False)" and s: "sameShape m m'"
  shows "m1 = m \<and> \<not> c \<and> attemptCollapse ord m' cur c a b = Some (m', False)"
proof -
  from h obtain m2 f2 where "collapseEdge ord m a b cur = Some (False, m2, f2)" and c: "\<not> c"
    and m1: "m1 = m"
    by (auto simp: attemptCollapse_def split: option.splits if_splits)
  from collapseEdge_rejected_shape[OF this(1) s] c m1 show ?thesis
    by (simp add: attemptCollapse_def)
qed

lemma visitFace_unfold:
  "visitFace ord doCollapse current i (m, collapsed) =
     (if isFreeFace m i = False then do {
        (i1, i2, i3) \<leftarrow> vertexIndices m i;
        c12 \<leftarrow> doCollapse m i1 i2;
        if c12 then attemptCollapse ord m current collapsed i1 i2
        else do {
          c13 \<leftarrow> doCollapse m i1 i3;
          if c13 then attemptCollapse ord m current collapsed i1 i3
          else do {
            c23 \<leftarrow> doCollapse m i2 i3;
            if c23 then attemptCollapse ord m current collapsed i2 i3 else Some (m, collapsed)
          }
        }
      } else Some (m, collapsed))"
  unfolding visitFace_def bind_collapseEdge collapseEdge_attempt by simp

lemma visitFace_mono:
  "visitFace ord d cur i (m, c) = Some (m1, c1) \<Longrightarrow> c \<Longrightarrow> c1"
  unfolding visitFace_unfold
  by (auto split: Option.bind_splits if_splits dest: attemptCollapse_mono)

lemma visitFace_shape:
  assumes h: "visitFace ord d cur i (m, c) = Some (m1, False)" and s: "sameShape m m'"
    and D: "d m' = d m"
  shows "m1 = m \<and> \<not> c \<and> visitFace ord d cur i (m', c) = Some (m', False)"
  using h unfolding visitFace_unfold sameShape_faces(1,2)[OF s] D
  by (auto split: Option.bind_splits if_splits dest!: attemptCollapse_shape[OF _ s])

lemma scanFaces_mono:
  "scanFaces ord d cur fs (m, c) = Some (m1, c1) \<Longrightarrow> c \<Longrightarrow> c1"
proof (induction fs arbitrary: m c)
  case Nil
  then show ?case by simp
next
  case (Cons f fs)
  from Cons.prems(1) obtain m2 c2 where v: "visitFace ord d cur f (m, c) = Some (m2, c2)"
    and r: "scanFaces ord d cur fs (m2, c2) = Some (m1, c1)"
    by (auto split: Option.bind_splits)
  from visitFace_mono[OF v Cons.prems(2)] Cons.IH[OF r] show ?case by simp
qed

lemma scanFaces_shape:
  assumes h: "scanFaces ord d cur fs (m, c) = Some (m1, False)" and s: "sameShape m m'"
    and D: "d m' = d m"
  shows "m1 = m \<and> \<not> c \<and> scanFaces ord d cur fs (m', c) = Some (m', False)"
  using h
proof (induction fs arbitrary: c)
  case Nil
  then show ?case by simp
next
  case (Cons f fs)
  from Cons.prems obtain m2 c2 where v: "visitFace ord d cur f (m, c) = Some (m2, c2)"
    and r: "scanFaces ord d cur fs (m2, c2) = Some (m1, False)"
    by (auto split: Option.bind_splits)
  from scanFaces_mono[OF r] have c2: "\<not> c2" by auto
  from v c2 have v0: "visitFace ord d cur f (m, c) = Some (m2, False)" by simp
  from visitFace_shape[OF v0 s D]
  have m2: "m2 = m" and c: "\<not> c" and v': "visitFace ord d cur f (m', c) = Some (m', False)"
    by blast+
  from r m2 c2 have "scanFaces ord d cur fs (m, False) = Some (m1, False)" by simp
  from Cons.IH[OF this] v' c show ?case by simp
qed

lemma collapseEdges_once:
  "collapseEdges ord d m faces =
     (case scanFaces ord d (commit (insertFaces emptyFaces (indices faces)))
             (indices (commit (insertFaces emptyFaces (indices faces)))) (m, False) of
        None \<Rightarrow> None
      | Some (m', c') \<Rightarrow>
          Some (c', m', commit (filterFaces (\<lambda>f. isFreeFace m' f = False)
            (insertFaces faces (uncommitted (insertFaces emptyFaces (indices faces)))))))"
  unfolding collapseEdges_def collapseLoop_once Let_def
  by (simp split: option.splits)

lemma collapseEdges_shape:
  assumes h: "collapseEdges ord d m faces = Some (False, m1, fs1)" and s: "sameShape m m'"
    and D: "d m' = d m"
  shows "m1 = m \<and> collapseEdges ord d m' faces = Some (False, m', fs1)"
proof -
  let ?cur = "commit (insertFaces emptyFaces (indices faces))"
  from h obtain m2 where sc: "scanFaces ord d ?cur (indices ?cur) (m, False) = Some (m2, False)"
    unfolding collapseEdges_once by (auto split: option.splits)
  from scanFaces_shape[OF sc s D]
  have m2: "m2 = m" and sc': "scanFaces ord d ?cur (indices ?cur) (m', False) = Some (m', False)"
    by blast+
  from h have r: "m1 = m2" "fs1 = commit (filterFaces (\<lambda>f. isFreeFace m2 f = False)
      (insertFaces faces (uncommitted (insertFaces emptyFaces (indices faces)))))"
    unfolding collapseEdges_once sc by auto
  have "collapseEdges ord d m' faces = Some (False, m', fs1)"
    unfolding collapseEdges_once sc' r(2) m2 by (simp add: sameShape_faces(1)[OF s])
  with r(1) m2 show ?thesis by simp
qed

lemma setVertexNormal_shape: "sameShape m (setVertexNormal normalOf m v)"
proof -
  let ?f = "map_option fst :: (vec3 \<times> vec3) option \<Rightarrow> vec3 option"
  let ?y = "map_option
            (\<lambda>(p, n). (p, normalOf (faceTable m) (map (map_option fst) (vertexTable m)) v))
            (vertexTable m ! v)"
  have y: "?f ?y = ?f (vertexTable m ! v)"
    by (cases "vertexTable m ! v") auto
  have "map ?f ((vertexTable m)[v := ?y]) = map ?f (vertexTable m)"
  proof (cases "v < length (vertexTable m)")
    case True
    then show ?thesis by (simp add: map_update y list_update_same_conv)
  next
    case False
    then have "(vertexTable m)[v := ?y] = vertexTable m" by (simp add: list_update_beyond)
    then show ?thesis by (simp only:)
  qed
  then show ?thesis by (simp add: sameShape_def setVertexNormal_def)
qed

lemma fold_setVertexNormal_shape:
  "sameShape m acc \<Longrightarrow> sameShape m (fold (\<lambda>v acc. setVertexNormal normalOf acc v) vs acc)"
proof (induction vs arbitrary: acc)
  case Nil
  then show ?case by simp
next
  case (Cons v vs)
  from Cons.prems setVertexNormal_shape[of acc normalOf v]
  have "sameShape m (setVertexNormal normalOf acc v)" by (rule sameShape_trans)
  from Cons.IH[OF this] show ?case by simp
qed

lemma finalize_shape: "sameShape m (finalize normalOf m faces)"
  unfolding finalize_def by (rule fold_setVertexNormal_shape) (rule sameShape_refl)

lemma putNormal_nth:
  "length (fold (putNormal nrm) vs vt) = length vt \<and>
   (\<forall>i < length vt. fold (putNormal nrm) vs vt ! i =
      (if i \<in> set vs then map_option (\<lambda>(p, n). (p, nrm i)) (vt ! i) else vt ! i))"
proof (induction vs arbitrary: vt)
  case Nil
  show ?case by simp
next
  case (Cons v vs)
  have l: "length (putNormal nrm v vt) = length vt" by (simp add: putNormal_def)
  have i: "map_option (\<lambda>(p, n). (p, nrm j)) (map_option (\<lambda>(p, n). (p, nrm j)) x) =
           map_option (\<lambda>(p, n). (p, nrm j)) x" for j and x :: "(vec3 \<times> vec3) option"
    by (cases x) auto
  have n: "putNormal nrm v vt ! j =
      (if j = v then map_option (\<lambda>(p, n). (p, nrm v)) (vt ! v) else vt ! j)"
    if "j < length vt" for j
    using that by (simp add: putNormal_def nth_list_update)
  from Cons.IH[of "putNormal nrm v vt"] l n i show ?case by auto
qed

lemma putNormal_twice:
  "fold (putNormal nrm) vs (fold (putNormal nrm) vs vt) = fold (putNormal nrm) vs vt"
proof (rule nth_equalityI)
  show "length (fold (putNormal nrm) vs (fold (putNormal nrm) vs vt)) =
        length (fold (putNormal nrm) vs vt)"
    using putNormal_nth by blast
next
  fix i
  assume "i < length (fold (putNormal nrm) vs (fold (putNormal nrm) vs vt))"
  then have i: "i < length vt" "i < length (fold (putNormal nrm) vs vt)"
    using putNormal_nth[of nrm vs vt] putNormal_nth[of nrm vs "fold (putNormal nrm) vs vt"]
    by simp_all
  have d: "map_option (\<lambda>(p, n). (p, nrm i)) (map_option (\<lambda>(p, n). (p, nrm i)) x) =
           map_option (\<lambda>(p, n). (p, nrm i)) x" for x :: "(vec3 \<times> vec3) option"
    by (cases x) auto
  from i putNormal_nth[of nrm vs vt] putNormal_nth[of nrm vs "fold (putNormal nrm) vs vt"] d
  show "fold (putNormal nrm) vs (fold (putNormal nrm) vs vt) ! i =
        fold (putNormal nrm) vs vt ! i"
    by simp
qed

lemma setVertexNormal_putNormal:
  assumes s: "sameShape m acc"
  shows "setVertexNormal normalOf acc v =
     acc\<lparr>vertexTable :=
       putNormal (normalOf (faceTable m) (map (map_option fst) (vertexTable m))) v
         (vertexTable acc)\<rparr>"
  using s by (simp add: setVertexNormal_def putNormal_def sameShape_def)

lemma fold_setVertexNormal_putNormal:
  assumes s: "sameShape m acc"
  shows "fold (\<lambda>v acc. setVertexNormal normalOf acc v) vs acc =
     acc\<lparr>vertexTable :=
       fold (putNormal (normalOf (faceTable m) (map (map_option fst) (vertexTable m)))) vs
         (vertexTable acc)\<rparr>"
  using s
proof (induction vs arbitrary: acc)
  case Nil
  show ?case by simp
next
  case (Cons v vs)
  from Cons.prems setVertexNormal_shape[of acc normalOf v]
  have s1: "sameShape m (setVertexNormal normalOf acc v)" by (rule sameShape_trans)
  show ?case
    by (simp add: Cons.IH[OF s1]) (simp add: setVertexNormal_putNormal[OF Cons.prems])
qed

lemma sameShape_forEachVertex:
  assumes s: "sameShape m m'"
  shows "forEachVertex m' faces = forEachVertex m faces"
proof -
  have "facesVertices m' fs = facesVertices m fs" for fs
    by (induction fs) (simp_all add: sameShape_faces(2)[OF s] split: option.splits)
  then show ?thesis by (simp add: forEachVertex_def)
qed

lemma finalize_twice:
  "finalize normalOf (finalize normalOf m faces) faces = finalize normalOf m faces"
proof -
  let ?m1 = "finalize normalOf m faces"
  have s: "sameShape m ?m1" by (rule finalize_shape)
  let ?g = "putNormal (normalOf (faceTable m) (map (map_option fst) (vertexTable m)))"
  let ?vs = "forEachVertex m faces"
  have a: "?m1 = m\<lparr>vertexTable := fold ?g ?vs (vertexTable m)\<rparr>"
    unfolding finalize_def by (rule fold_setVertexNormal_putNormal[OF sameShape_refl])
  have "finalize normalOf ?m1 faces = ?m1\<lparr>vertexTable := fold ?g ?vs (vertexTable ?m1)\<rparr>"
    unfolding finalize_def[of normalOf ?m1] sameShape_forEachVertex[OF s]
    by (rule fold_setVertexNormal_putNormal[OF s])
  also have "\<dots> = m\<lparr>vertexTable := fold ?g ?vs (fold ?g ?vs (vertexTable m))\<rparr>"
    by (subst (1 2) a) simp
  also have "\<dots> = ?m1" by (simp add: putNormal_twice a)
  finally show ?thesis .
qed

text \<open>
  C9, as amended. If a call of \<^verbatim>\<open>collapseDegeneratedEdges\<close> returns false, an
  immediately following call returns false as well, and it leaves the mesh as the first call
  left it; this holds for every way of computing the normals from the faces and the positions.
\<close>

theorem collapseDegeneratedEdges_false_then_false:
  assumes "collapseDegeneratedEdges ord normalOf m = Some (False, m1)"
  shows "collapseDegeneratedEdges ord normalOf m1 = Some (False, m1)"
proof -
  let ?faces = "commit (insertFaces emptyFaces (forEachFace m))"
  let ?d = "isCollapsable (minEdgeLength * minEdgeLength)"
  from assms obtain m0 fs1 where c: "collapseEdges ord ?d m ?faces = Some (False, m0, fs1)"
    and m1: "m1 = finalize normalOf m0 fs1"
    by (auto simp: collapseDegeneratedEdges_def collapseEdgesByLength_def
        split: Option.bind_splits)
  from collapseEdges_shape[OF c sameShape_refl] have m0: "m0 = m" by simp
  have s: "sameShape m m1" unfolding m1 m0 by (rule finalize_shape)
  have D: "?d m1 = ?d m"
    by (rule ext, rule ext) (rule sameShape_isCollapsable[OF s])
  from collapseEdges_shape[OF c s D]
  have "collapseEdges ord ?d m1 ?faces = Some (False, m1, fs1)" by simp
  then have "collapseDegeneratedEdges ord normalOf m1 = Some (False, finalize normalOf m1 fs1)"
    by (simp add: collapseDegeneratedEdges_def collapseEdgesByLength_def
        sameShape_faces(5)[OF s])
  then show ?thesis unfolding m1 m0 finalize_twice .
qed

lemma octahedron_no_collapse:
  "collapseDegeneratedEdges gnuOrder upNormal octahedron = Some (False, octahedronUp)"
  by code_simp

theorem collapseDegeneratedEdges_false_then_false_witness:
  "collapseDegeneratedEdges gnuOrder upNormal octahedron = Some (False, octahedronUp) \<and>
   collapseDegeneratedEdges gnuOrder upNormal octahedronUp = Some (False, octahedronUp)"
  using collapseDegeneratedEdges_false_then_false[of gnuOrder upNormal octahedron octahedronUp]
    octahedron_no_collapse
  by simp

lemma pinched_two_calls:
  "case collapseDegeneratedEdges gnuOrder normalOf pinched of
     None \<Rightarrow> False
   | Some (b, m1) \<Rightarrow>
       b \<and> map_option fst (collapseDegeneratedEdges gnuOrder normalOf m1) = Some True"
  by code_simp

text \<open>
  C9, as stated, fails. On the mesh \<open>pinched\<close>, with the order in which the GNU library
  iterates over the set of faces to delete, a first call of
  \<^verbatim>\<open>collapseDegeneratedEdges\<close> returns true, and a second call on the mesh that the first
  call leaves returns true again, for every way of computing the normals. The first call
  collapses the edge \<open>(1, 2)\<close> into the vertex 9 when it scans face 3; the new faces
  \<open>(9, 0, 7)\<close> and \<open>(9, 7, 8)\<close> of the edge \<open>(9, 7)\<close>, which is shorter than 0.001, take the
  indices 1 and 2, which the scan has passed, and a collapse that deletes more faces than it
  adds inserts no face into a face-set. The second call collapses \<open>(9, 7)\<close> at face 1.
\<close>

theorem collapseDegeneratedEdges_second_call_collapses:
  "\<forall>normalOf. \<exists>m1 m2. collapseDegeneratedEdges gnuOrder normalOf pinched = Some (True, m1) \<and>
            collapseDegeneratedEdges gnuOrder normalOf m1 = Some (True, m2)"
proof
  fix normalOf
  show "\<exists>m1 m2. collapseDegeneratedEdges gnuOrder normalOf pinched = Some (True, m1) \<and>
            collapseDegeneratedEdges gnuOrder normalOf m1 = Some (True, m2)"
  proof (cases "collapseDegeneratedEdges gnuOrder normalOf pinched")
    case None
    with pinched_two_calls[of normalOf] show ?thesis by simp
  next
    case (Some x)
    obtain b m1 where x: "x = (b, m1)" by (cases x)
    from pinched_two_calls[of normalOf] Some x
    have b: "b" and s: "map_option fst (collapseDegeneratedEdges gnuOrder normalOf m1) = Some True"
      by simp_all
    from s obtain m2 where "collapseDegeneratedEdges gnuOrder normalOf m1 = Some (True, m2)"
      by (cases "collapseDegeneratedEdges gnuOrder normalOf m1") auto
    with Some x b show ?thesis by auto
  qed
qed

end
